theory Spec2Isabelle
  imports Main "HOL-Library.AList" "HOL-Library.Word"
begin

section \<open>Data model (models.py, storage.py)\<close>

text \<open>
  Bytes are 8-bit words. Time stamps are the values of \<^verbatim>\<open>datetime.now().timestamp()\<close>;
  the code only stores and compares them, so they are integers here (seconds), and every
  reading of the clock is a parameter of the function that reads it.
\<close>

type_synonym byte = "8 word"

datatype error = OSError | FileNotFoundError | ValueError | HTTPException nat

text \<open>\<^verbatim>\<open>class FileChunk(BaseModel)\<close> of models.py.\<close>

record FileChunk =
  file_id :: string
  start_byte :: int
  end_byte :: int
  data :: "byte list"
  checksum :: int
  chunk_total_size :: "int option"
  timestamp :: int

text \<open>The dictionary that \<^verbatim>\<open>save_chunk\<close> appends to \<^verbatim>\<open>upload_tracker[file_id]["chunks"]\<close>.\<close>

record chunk_entry =
  e_start :: int
  e_end :: int
  e_path :: string
  e_checksum :: int
  e_timestamp :: int

text \<open>
  The value stored under a file id. The key \<^verbatim>\<open>"status"\<close> is absent until
  \<^verbatim>\<open>assemble_file\<close> sets it, hence the option.
\<close>

record file_info =
  chunks :: "chunk_entry list"
  total_size :: "int option"
  last_updated :: int
  status :: "string option"

text \<open>
  \<^verbatim>\<open>upload_tracker\<close> is a Python dictionary: keys are distinct and iteration follows
  insertion order. It is an association list here, written with \<open>AList.update\<close> (replace in
  place, or append a new key) and \<open>AList.delete\<close>. The files under the two directories are
  a map from path to content.
\<close>

type_synonym disk = "string \<rightharpoonup> byte list"

record world =
  upload_tracker :: "(string \<times> file_info) list"
  disk :: disk

definition UPLOAD_DIR :: string where
  "UPLOAD_DIR = ''uploads''"

definition CHUNK_DIR :: string where
  "CHUNK_DIR = ''chunks''"

definition STALE_THRESHOLD :: int where
  "STALE_THRESHOLD = 3600"

section \<open>Paths\<close>

text \<open>
  \<^verbatim>\<open>os.path.join(a, b)\<close> for a first component that does not end in a slash: an
  absolute second component replaces the first one.
\<close>

definition path_join :: "string \<Rightarrow> string \<Rightarrow> string" where
  "path_join a b = (case b of [] \<Rightarrow> a @ ''/'' | c # _ \<Rightarrow> if c = CHR ''/'' then b else a @ ''/'' @ b)"

definition digit_char :: "nat \<Rightarrow> char" where
  "digit_char n = ''0123456789'' ! n"

function str_nat :: "nat \<Rightarrow> string" where
  "str_nat n = (if n < 10 then [digit_char n] else str_nat (n div 10) @ [digit_char (n mod 10)])"
  by pat_completeness auto
termination
  by (relation "measure id") auto

declare str_nat.simps [simp del]

text \<open>How an f-string renders an \<^verbatim>\<open>int\<close>.\<close>

definition str_int :: "int \<Rightarrow> string" where
  "str_int i = (if i < 0 then CHR ''-'' # str_nat (nat (- i)) else str_nat (nat i))"

text \<open>\<^verbatim>\<open>os.path.join(CHUNK_DIR, f"{file_id}_{start_byte}_{end_byte}.chunk")\<close>\<close>

definition chunk_path :: "string \<Rightarrow> int \<Rightarrow> int \<Rightarrow> string" where
  "chunk_path fid s e = path_join CHUNK_DIR (fid @ ''_'' @ str_int s @ ''_'' @ str_int e @ ''.chunk'')"

definition artifact_path :: "string \<Rightarrow> string" where
  "artifact_path fid = path_join UPLOAD_DIR fid"

definition incomplete_path :: "string \<Rightarrow> string" where
  "incomplete_path fid = path_join UPLOAD_DIR (fid @ ''.incomplete'')"

section \<open>File operations\<close>

text \<open>
  What the storage does with one \<^verbatim>\<open>open(path, "wb")\<close> followed by \<^verbatim>\<open>write\<close>:
  it succeeds, or \<^verbatim>\<open>open\<close> raises, or \<^verbatim>\<open>write\<close> raises after the file was
  truncated and some prefix of the payload reached it. For the fragment write this outcome
  is a parameter of \<^verbatim>\<open>save_chunk\<close>.
\<close>

datatype write_outcome = Written | OpenFailed | WriteFailed nat

definition write_file :: "write_outcome \<Rightarrow> string \<Rightarrow> byte list \<Rightarrow> disk \<Rightarrow> error option \<times> disk" where
  "write_file wo p bs d =
     (case wo of
        Written \<Rightarrow> (None, d(p \<mapsto> bs))
      | OpenFailed \<Rightarrow> (Some OSError, d)
      | WriteFailed k \<Rightarrow> (Some OSError, d(p \<mapsto> take k bs)))"

definition append_file :: "string \<Rightarrow> byte list \<Rightarrow> disk \<Rightarrow> disk" where
  "append_file p bs d = d(p \<mapsto> (case d p of None \<Rightarrow> bs | Some old \<Rightarrow> old @ bs))"

text \<open>
  The loop \<^verbatim>\<open>for chunk in chunks: with open(chunk["path"], "rb") as infile:
  outfile.write(infile.read())\<close>. Opening a fragment that is not on disk raises
  \<^verbatim>\<open>FileNotFoundError\<close>, which leaves what was written so far.
\<close>

text \<open>
  \<open>room\<close> is \<open>None\<close> when the writes to the output succeed. It is \<open>Some k\<close> when the
  output takes \<open>k\<close> more bytes and no more: the write that would exceed them raises after
  filling them, and when all fragments fit the error surfaces as the file is closed.
\<close>

fun copy_chunks :: "nat option \<Rightarrow> string \<Rightarrow> chunk_entry list \<Rightarrow> disk \<Rightarrow> error option \<times> disk" where
  "copy_chunks room out [] d = (case room of None \<Rightarrow> (None, d) | Some k \<Rightarrow> (Some OSError, d))"
| "copy_chunks room out (c # cs) d =
     (case d (e_path c) of
        None \<Rightarrow> (Some FileNotFoundError, d)
      | Some bs \<Rightarrow>
          (case room of
             None \<Rightarrow> copy_chunks None out cs (append_file out bs d)
           | Some k \<Rightarrow>
               if k < length bs then (Some OSError, append_file out (take k bs) d)
               else copy_chunks (Some (k - length bs)) out cs (append_file out bs d)))"

text \<open>
  \<^verbatim>\<open>with open(output_path, "wb") as outfile:\<close> around that loop. The open raises when
  the path cannot be opened for writing (it names a directory, as the artifact path of the
  file ids \<^verbatim>\<open>.\<close> and \<^verbatim>\<open>..\<close> does); otherwise it truncates the file.
\<close>

definition write_artifact :: "write_outcome \<Rightarrow> string \<Rightarrow> chunk_entry list \<Rightarrow> disk \<Rightarrow> error option \<times> disk" where
  "write_artifact wo out cs d =
     (case wo of
        Written \<Rightarrow> copy_chunks None out cs (d(out \<mapsto> []))
      | OpenFailed \<Rightarrow> (Some OSError, d)
      | WriteFailed k \<Rightarrow> copy_chunks (Some k) out cs (d(out \<mapsto> [])))"

text \<open>\<^verbatim>\<open>try: os.remove(path) except OSError: pass\<close>, for each chunk.\<close>

fun remove_files :: "string list \<Rightarrow> disk \<Rightarrow> disk" where
  "remove_files [] d = d"
| "remove_files (p # ps) d = remove_files ps (d(p := None))"

section \<open>What the code takes from its surroundings\<close>

text \<open>
  \<open>artifact_write p\<close> is what the storage does with the write of the artifact at path
  \<open>p\<close>. \<open>threshold_at now\<close> is the value of
  \<^verbatim>\<open>(datetime.now() - STALE_THRESHOLD).timestamp()\<close> when the clock reads \<open>now\<close>. The
  subtraction is done on naive local time, so the value is one hour before \<open>now\<close> only
  while the UTC offset of the local zone stays the same; the sweeps are modelled for every
  such function.
\<close>

record environment =
  artifact_write :: "string \<Rightarrow> write_outcome"
  threshold_at :: "int \<Rightarrow> int"

section \<open>storage.py\<close>

definition chunk_len :: "chunk_entry \<Rightarrow> int" where
  "chunk_len c = e_end c - e_start c + 1"

text \<open>\<^verbatim>\<open>sum(c["end"] - c["start"] + 1 for c in chunks)\<close>\<close>

definition total_received :: "chunk_entry list \<Rightarrow> int" where
  "total_received cs = sum_list (map chunk_len cs)"

definition assemble_file :: "environment \<Rightarrow> string \<Rightarrow> world \<Rightarrow> (error + bool) \<times> world" where
  "assemble_file env fid w =
     (case map_of (upload_tracker w) fid of
        None \<Rightarrow> (Inl ValueError, w)
      | Some info \<Rightarrow>
          let cs = sort_key e_start (chunks info) in
          (case total_size info of
             None \<Rightarrow> (Inr False, w)
           | Some expected_size \<Rightarrow>
               if total_received cs < expected_size then (Inr False, w)
               else
                 (case write_artifact (artifact_write env (artifact_path fid))
                         (artifact_path fid) cs (disk w) of
                    (Some e, d) \<Rightarrow> (Inl e, w\<lparr>disk := d\<rparr>)
                  | (None, d) \<Rightarrow>
                      (Inr True,
                       \<lparr>upload_tracker =
                          AList.update fid (info\<lparr>status := Some ''complete''\<rparr>) (upload_tracker w),
                        disk = remove_files (map e_path cs) d\<rparr>))))"

text \<open>
  \<^verbatim>\<open>save_chunk\<close>. \<open>wo\<close> is what the storage does with the fragment write, \<open>now\<close> the
  clock, read once for the time stamp. The completion test reads the total size declared by the chunk at hand, the test
  inside \<^verbatim>\<open>assemble_file\<close> the one recorded when the session was created.
\<close>

definition new_entry :: "FileChunk \<Rightarrow> int \<Rightarrow> chunk_entry" where
  "new_entry chunk now =
     \<lparr>e_start = start_byte chunk, e_end = end_byte chunk,
      e_path = chunk_path (file_id chunk) (start_byte chunk) (end_byte chunk),
      e_checksum = checksum chunk, e_timestamp = now\<rparr>"

definition register_chunk :: "FileChunk \<Rightarrow> int \<Rightarrow> (string \<times> file_info) list \<Rightarrow> (string \<times> file_info) list" where
  "register_chunk chunk now t =
     (let info = (case map_of t (file_id chunk) of
                    None \<Rightarrow> \<lparr>chunks = [], total_size = chunk_total_size chunk,
                              last_updated = now, status = None\<rparr>
                  | Some i \<Rightarrow> i)
      in AList.update (file_id chunk)
           (info\<lparr>chunks := chunks info @ [new_entry chunk now], last_updated := now\<rparr>) t)"

definition save_chunk ::
  "environment \<Rightarrow> write_outcome \<Rightarrow> int \<Rightarrow> FileChunk \<Rightarrow> world \<Rightarrow> error option \<times> world" where
  "save_chunk env wo now chunk w =
     (case write_file wo (chunk_path (file_id chunk) (start_byte chunk) (end_byte chunk))
             (data chunk) (disk w) of
        (Some e, d) \<Rightarrow> (Some e, w\<lparr>disk := d\<rparr>)
      | (None, d) \<Rightarrow>
          let t = register_chunk chunk now (upload_tracker w);
              w' = \<lparr>upload_tracker = t, disk = d\<rparr>
          in (case chunk_total_size chunk of
                None \<Rightarrow> (None, w')
              | Some declared \<Rightarrow>
                  (case map_of t (file_id chunk) of
                     None \<Rightarrow> (None, w')
                   | Some info \<Rightarrow>
                       if total_received (chunks info) \<ge> declared
                       then (case assemble_file env (file_id chunk) w' of
                               (Inl e, w'') \<Rightarrow> (Some e, w'')
                             | (Inr _, w'') \<Rightarrow> (None, w''))
                       else (None, w'))))"

text \<open>The dictionary returned by \<^verbatim>\<open>get_file_status\<close>; the not-found one has no \<^verbatim>\<open>next_byte\<close>.\<close>

record file_status =
  st_file_id :: string
  st_status :: string
  received_bytes :: int
  total_bytes :: "int option"
  st_last_updated :: "int option"
  next_byte :: "int option"
  st_chunks :: "(int \<times> int) list"

fun max_list :: "int list \<Rightarrow> int" where
  "max_list [] = 0"
| "max_list (x # xs) = fold max xs x"

definition get_file_status :: "string \<Rightarrow> world \<Rightarrow> file_status" where
  "get_file_status fid w =
     (case map_of (upload_tracker w) fid of
        None \<Rightarrow>
          \<lparr>st_file_id = fid, st_status = ''not_found'', received_bytes = 0, total_bytes = None,
           st_last_updated = None, next_byte = None, st_chunks = []\<rparr>
      | Some info \<Rightarrow>
          \<lparr>st_file_id = fid,
           st_status = (if status info = Some ''complete'' then ''complete''
                        else if chunks info \<noteq> [] then ''partial'' else ''pending''),
           received_bytes = total_received (chunks info),
           total_bytes = total_size info,
           st_last_updated = Some (last_updated info),
           next_byte = Some (if chunks info \<noteq> [] then max_list (map e_end (chunks info)) + 1 else 0),
           st_chunks = map (\<lambda>c. (e_start c, e_end c)) (chunks info)\<rparr>)"

text \<open>
  The inner loop of \<^verbatim>\<open>cleanup_stale_chunks\<close> that computes \<^verbatim>\<open>stale\<close>, and the
  \<^verbatim>\<open>any(...)\<close> of \<^verbatim>\<open>persist_incomplete_files\<close>.
\<close>

fun stale :: "int \<Rightarrow> chunk_entry list \<Rightarrow> bool" where
  "stale threshold [] = True"
| "stale threshold (c # cs) = (if e_timestamp c > threshold then False else stale threshold cs)"

definition recent_activity :: "int \<Rightarrow> chunk_entry list \<Rightarrow> bool" where
  "recent_activity threshold cs = list_ex (\<lambda>c. e_timestamp c > threshold) cs"

text \<open>
  The loop of \<^verbatim>\<open>cleanup_stale_chunks\<close> over the snapshot \<^verbatim>\<open>list(upload_tracker.items())\<close>.
  The keys of the snapshot are distinct, so \<^verbatim>\<open>del upload_tracker[file_id]\<close> always finds
  its key.
\<close>

fun cleanup_loop :: "int \<Rightarrow> (string \<times> file_info) list \<Rightarrow> world \<Rightarrow> world" where
  "cleanup_loop threshold [] w = w"
| "cleanup_loop threshold ((fid, info) # rest) w =
     (if status info = Some ''complete'' then cleanup_loop threshold rest w
      else if stale threshold (chunks info)
      then cleanup_loop threshold rest
             \<lparr>upload_tracker = AList.delete fid (upload_tracker w),
              disk = remove_files (map e_path (chunks info)) (disk w)\<rparr>
      else cleanup_loop threshold rest w)"

definition cleanup_stale_chunks :: "environment \<Rightarrow> int \<Rightarrow> world \<Rightarrow> world" where
  "cleanup_stale_chunks env now w = cleanup_loop (threshold_at env now) (upload_tracker w) w"

text \<open>
  The loop of \<^verbatim>\<open>persist_incomplete_files\<close>; an artifact that cannot be written or a
  fragment that cannot be read ends it. \<open>art\<close> is \<open>artifact_write\<close> of the environment.
\<close>

fun persist_loop ::
  "(string \<Rightarrow> write_outcome) \<Rightarrow> int \<Rightarrow> (string \<times> file_info) list \<Rightarrow> world \<Rightarrow> error option \<times> world" where
  "persist_loop art threshold [] w = (None, w)"
| "persist_loop art threshold ((fid, info) # rest) w =
     (if status info = Some ''complete'' then persist_loop art threshold rest w
      else if \<not> recent_activity threshold (chunks info) \<and> chunks info \<noteq> []
      then (case write_artifact (art (incomplete_path fid)) (incomplete_path fid)
                   (sort_key e_start (chunks info)) (disk w) of
              (Some e, d) \<Rightarrow> (Some e, w\<lparr>disk := d\<rparr>)
            | (None, d) \<Rightarrow>
                persist_loop art threshold rest
                  \<lparr>upload_tracker = AList.delete fid (upload_tracker w),
                   disk = remove_files (map e_path (chunks info)) d\<rparr>)
      else persist_loop art threshold rest w)"

definition persist_incomplete_files :: "environment \<Rightarrow> int \<Rightarrow> world \<Rightarrow> error option \<times> world" where
  "persist_incomplete_files env now w =
     persist_loop (artifact_write env) (threshold_at env now) (upload_tracker w) w"

section \<open>background.py and main.py\<close>

text \<open>
  One round of \<^verbatim>\<open>periodic_cleanup\<close> after the sleep: cleanup, then persist. Each of the
  two reads the clock itself, \<open>now1\<close> first and \<open>now2\<close> second.
\<close>

definition periodic_cleanup :: "environment \<Rightarrow> int \<Rightarrow> int \<Rightarrow> world \<Rightarrow> error option \<times> world" where
  "periodic_cleanup env now1 now2 w =
     persist_incomplete_files env now2 (cleanup_stale_chunks env now1 w)"

text \<open>
  The two background tasks that \<^verbatim>\<open>trigger_cleanup\<close> queues, run in the order they were
  added: persist, then cleanup. A task that raises ends the run.
\<close>

definition trigger_cleanup :: "environment \<Rightarrow> int \<Rightarrow> int \<Rightarrow> world \<Rightarrow> error option \<times> world" where
  "trigger_cleanup env now1 now2 w =
     (case persist_incomplete_files env now1 w of
        (Some e, w') \<Rightarrow> (Some e, w')
      | (None, w') \<Rightarrow> (None, cleanup_stale_chunks env now2 w'))"

text \<open>
  \<^verbatim>\<open>upload_file_chunk\<close>. \<^verbatim>\<open>verify_token\<close> lives in auth.py; its verdict is the
  parameter \<open>token_ok\<close>. The Content-Range header arrives split into its fields: it is
  missing, or it does not split into unit, start, end and total, or it does; the total is
  \<^verbatim>\<open>*\<close>, or text that \<^verbatim>\<open>int\<close> accepts, or text that \<^verbatim>\<open>int\<close> rejects.
\<close>

datatype total_field = Star | Total int | NotANumber

datatype content_range = Missing | Malformed | Range string int int total_field

definition upload_file_chunk ::
  "bool \<Rightarrow> environment \<Rightarrow> write_outcome \<Rightarrow> int \<Rightarrow> string \<Rightarrow> content_range \<Rightarrow> byte list \<Rightarrow> world \<Rightarrow>
     (error + int) \<times> world" where
  "upload_file_chunk token_ok env wo now fid cr raw_data w =
     (if \<not> token_ok then (Inl (HTTPException 401), w)
      else case cr of
        Missing \<Rightarrow> (Inl (HTTPException 400), w)
      | Malformed \<Rightarrow> (Inl (HTTPException 400), w)
      | Range u s e tot \<Rightarrow>
          if u \<noteq> ''bytes'' then (Inl (HTTPException 400), w)
          else if length raw_data < 12 then (Inl (HTTPException 400), w)
          else
            let header = take 12 raw_data;
                chunk_data = drop 12 raw_data;
                cks = sum_list (map uint chunk_data) mod 256
            in if cks \<noteq> uint (last header) then (Inl (HTTPException 400), w)
               else (case tot of
                       NotANumber \<Rightarrow> (Inl ValueError, w)
                     | _ \<Rightarrow>
                       (case save_chunk env wo now
                               \<lparr>file_id = fid, start_byte = s, end_byte = e, data = chunk_data,
                                checksum = cks,
                                chunk_total_size = (case tot of Total n \<Rightarrow> Some n | _ \<Rightarrow> None),
                                timestamp = 0\<rparr> w of
                          (Some err, w') \<Rightarrow> (Inl err, w')
                        | (None, w') \<Rightarrow> (Inr (e + 1), w'))))"

section \<open>Coverage as the specification defines it\<close>

text \<open>
  The merged, non-overlapping union of the recorded byte ranges, and its total length
  (\<^verbatim>\<open>coveredBytes\<close> of the specification's interval tracker).
\<close>

definition coverage :: "chunk_entry list \<Rightarrow> int set" where
  "coverage cs = (\<Union>c\<in>set cs. {e_start c .. e_end c})"

definition coveredBytes :: "chunk_entry list \<Rightarrow> int" where
  "coveredBytes cs = int (card (coverage cs))"

definition session_chunks :: "string \<Rightarrow> world \<Rightarrow> chunk_entry list" where
  "session_chunks fid w = (case map_of (upload_tracker w) fid of None \<Rightarrow> [] | Some info \<Rightarrow> chunks info)"

definition empty_world :: world where
  "empty_world = \<lparr>upload_tracker = [], disk = Map.empty\<rparr>"

section \<open>Naive local time\<close>

text \<open>
  How \<^verbatim>\<open>datetime\<close> computes \<^verbatim>\<open>(datetime.now() - STALE_THRESHOLD).timestamp()\<close> in a
  zone whose UTC offset at the instant \<open>u\<close> is \<open>utcoffset u\<close> seconds.
  \<^verbatim>\<open>datetime.now()\<close> is the wall clock of the instant; the subtraction takes an hour off
  the wall clock; \<^verbatim>\<open>timestamp()\<close> looks for the instant that shows the resulting wall
  clock, the earlier one if there are two, and steps over a gap if there is none (the
  search of \<^verbatim>\<open>datetime._mktime\<close> for \<^verbatim>\<open>fold = 0\<close>).
\<close>

definition local_seconds :: "(int \<Rightarrow> int) \<Rightarrow> int \<Rightarrow> int" where
  "local_seconds utcoffset u = u + utcoffset u"

definition naive_timestamp :: "(int \<Rightarrow> int) \<Rightarrow> int \<Rightarrow> int" where
  "naive_timestamp utcoffset t =
     (let a = local_seconds utcoffset t - t;
          u1 = t - a;
          t1 = local_seconds utcoffset u1;
          earlier = u1 - 24 * 3600;
          b = (if t1 = t then local_seconds utcoffset earlier - earlier else t1 - u1);
          u2 = t - b;
          t2 = local_seconds utcoffset u2
      in if t1 = t \<and> a = b then u1
         else if t2 = t then u2
         else if t1 = t then u1
         else max u1 u2)"

definition naive_threshold :: "(int \<Rightarrow> int) \<Rightarrow> int \<Rightarrow> int" where
  "naive_threshold utcoffset now =
     naive_timestamp utcoffset (local_seconds utcoffset now - STALE_THRESHOLD)"

text \<open>
  A zone that moves its clocks forward by an hour at the instant \<open>T\<close>, and one that moves
  them back (New York in March and in November).
\<close>

definition spring_forward :: "int \<Rightarrow> int \<Rightarrow> int" where
  "spring_forward T u = (if u < T then - 18000 else - 14400)"

definition fall_back :: "int \<Rightarrow> int \<Rightarrow> int" where
  "fall_back T u = (if u < T then - 14400 else - 18000)"

section \<open>Runs and example sessions\<close>

text \<open>
  Two environments in which every artifact write succeeds. In \<open>calm\<close> the UTC offset
  does not change, so the threshold is one hour before the clock reading. \<open>spring_hour\<close>
  is the hour after the clocks went forward, in which the threshold is the clock reading
  itself.
\<close>

definition calm :: environment where
  "calm = \<lparr>artifact_write = (\<lambda>p. Written), threshold_at = (\<lambda>now. now - STALE_THRESHOLD)\<rparr>"

definition spring_hour :: environment where
  "spring_hour = \<lparr>artifact_write = (\<lambda>p. Written), threshold_at = (\<lambda>now. now)\<rparr>"

text \<open>
  A run of \<^verbatim>\<open>save_chunk\<close> calls whose fragment writes succeed, each with the clock
  reading of its call. A call that raises inside \<^verbatim>\<open>assemble_file\<close> leaves the state it
  reached, and the server goes on with the next request.
\<close>

fun ingest :: "environment \<Rightarrow> (int \<times> FileChunk) list \<Rightarrow> world \<Rightarrow> world" where
  "ingest env [] w = w"
| "ingest env ((now, c) # cs) w = ingest env cs (snd (save_chunk env Written now c w))"

text \<open>The chunk that \<^verbatim>\<open>upload_file_chunk\<close> builds for a payload with a correct checksum.\<close>

definition mk_chunk :: "string \<Rightarrow> int \<Rightarrow> int \<Rightarrow> byte list \<Rightarrow> int option \<Rightarrow> FileChunk" where
  "mk_chunk fid s e payload tot =
     \<lparr>file_id = fid, start_byte = s, end_byte = e, data = payload,
      checksum = sum_list (map uint payload) mod 256, chunk_total_size = tot, timestamp = 0\<rparr>"

text \<open>Chunk [0,99], then chunk [50,149], of a file whose size was not declared.\<close>

definition overlap_world :: world where
  "overlap_world =
     ingest calm [(10, mk_chunk ''f'' 0 99 (replicate 100 0) None),
             (20, mk_chunk ''f'' 50 149 (replicate 100 0) None)] empty_world"

text \<open>Bytes 0 to 2 of a 4-byte file, then byte 0 again; byte 3 never arrives.\<close>

definition retransmit_world :: world where
  "retransmit_world =
     ingest calm [(10, mk_chunk ''f'' 0 2 [1, 2, 3] (Some 4)),
             (20, mk_chunk ''f'' 0 0 [1] (Some 4))] empty_world"

text \<open>Chunk [0,99] once, and the same chunk twice.\<close>

definition once_world :: world where
  "once_world = ingest calm [(10, mk_chunk ''f'' 0 99 (replicate 100 0) None)] empty_world"

definition twice_world :: world where
  "twice_world =
     ingest calm [(10, mk_chunk ''f'' 0 99 (replicate 100 0) None),
             (20, mk_chunk ''f'' 0 99 (replicate 100 0) None)] empty_world"

text \<open>A session that recorded a total size of 100 with its first chunk [0,9].\<close>

definition sized_world :: world where
  "sized_world = ingest calm [(10, mk_chunk ''f'' 0 9 (replicate 10 0) (Some 100))] empty_world"

text \<open>
  Chunks [0,1] and [1,2] of a file declared as 4 bytes. In the first session both chunks
  declare the size, so the second call of \<^verbatim>\<open>save_chunk\<close> assembles; in the second
  session the second chunk declares \<^verbatim>\<open>*\<close>, so \<^verbatim>\<open>save_chunk\<close> does not call
  \<^verbatim>\<open>assemble_file\<close> and the fragments are still on disk.
\<close>

definition overlap4_world :: world where
  "overlap4_world =
     ingest calm [(10, mk_chunk ''f'' 0 1 [1, 2] (Some 4)),
             (20, mk_chunk ''f'' 1 2 [2, 3] (Some 4))] empty_world"

definition unassembled_world :: world where
  "unassembled_world =
     ingest calm [(10, mk_chunk ''f'' 0 1 [1, 2] (Some 4)),
             (20, mk_chunk ''f'' 1 2 [2, 3] None)] empty_world"

section \<open>The registry invariant and what a sweep touches\<close>

text \<open>
  What holds of every registry that \<^verbatim>\<open>save_chunk\<close> and the sweeps build from the empty
  one: the keys are distinct (it is a dictionary), and every chunk record carries the
  fragment path that \<^verbatim>\<open>save_chunk\<close> computed from the session's file id and the range.
\<close>

definition registry_inv :: "world \<Rightarrow> bool" where
  "registry_inv w =
     (distinct (map fst (upload_tracker w)) \<and>
      list_all (\<lambda>item. list_all (\<lambda>c. e_path c = chunk_path (fst item) (e_start c) (e_end c))
                          (chunks (snd item)))
        (upload_tracker w))"

text \<open>The tests under which the two loops reclaim an entry of the snapshot.\<close>

definition cleanup_reclaims :: "int \<Rightarrow> string \<times> file_info \<Rightarrow> bool" where
  "cleanup_reclaims threshold item =
     (status (snd item) \<noteq> Some ''complete'' \<and> stale threshold (chunks (snd item)))"

definition persist_reclaims :: "int \<Rightarrow> string \<times> file_info \<Rightarrow> bool" where
  "persist_reclaims threshold item =
     (status (snd item) \<noteq> Some ''complete'' \<and>
      \<not> recent_activity threshold (chunks (snd item)) \<and> chunks (snd item) \<noteq> [])"

definition persist_paths :: "int \<Rightarrow> (string \<times> file_info) list \<Rightarrow> string set" where
  "persist_paths threshold items =
     (\<Union>item\<in>set (filter (persist_reclaims threshold) items).
        insert (incomplete_path (fst item)) (e_path ` set (chunks (snd item))))"

definition cleanup_paths :: "int \<Rightarrow> (string \<times> file_info) list \<Rightarrow> string set" where
  "cleanup_paths threshold items =
     (\<Union>item\<in>set (filter (cleanup_reclaims threshold) items). e_path ` set (chunks (snd item)))"

text \<open>
  A session whose only chunk arrived at time 4998, a session of unknown total size whose
  only chunk arrived at time 10, and a registry with an abandoned session \<^verbatim>\<open>g\<close> next to
  a session \<^verbatim>\<open>f\<close> that has an old chunk and one from time 5000.
\<close>

definition fresh_world :: world where
  "fresh_world = ingest calm [(4998, mk_chunk ''f'' 0 1 [1, 2] (Some 8))] empty_world"

definition stale_world :: world where
  "stale_world = ingest calm [(10, mk_chunk ''f'' 0 1 [1, 2] None)] empty_world"

definition mixed_world :: world where
  "mixed_world =
     ingest calm [(10, mk_chunk ''f'' 0 1 [1, 2] (Some 8)),
             (20, mk_chunk ''g'' 0 1 [7, 8] (Some 8)),
             (5000, mk_chunk ''f'' 2 3 [3, 4] (Some 8))] empty_world"

section \<open>Evaluation and helper lemmas\<close>

lemmas eval_defs =
  get_file_status_def save_chunk_def write_file_def register_chunk_def new_entry_def
  mk_chunk_def empty_world_def total_received_def chunk_len_def session_chunks_def
  assemble_file_def chunk_path_def artifact_path_def incomplete_path_def path_join_def
  CHUNK_DIR_def UPLOAD_DIR_def STALE_THRESHOLD_def str_int_def str_nat.simps digit_char_def
  append_file_def write_artifact_def calm_def Let_def sum_list_replicate

lemma assemble_file_tracker:
  "upload_tracker (snd (assemble_file env fid w)) = upload_tracker w \<or>
   (\<exists>info. map_of (upload_tracker w) fid = Some info \<and>
      upload_tracker (snd (assemble_file env fid w)) =
        AList.update fid (info\<lparr>status := Some ''complete''\<rparr>) (upload_tracker w))"
  by (auto simp: assemble_file_def Let_def split: option.splits prod.splits)

lemma assemble_file_session_chunks:
  "session_chunks k (snd (assemble_file env fid w)) = session_chunks k w"
  using assemble_file_tracker [of env fid w]
  by (auto simp: session_chunks_def update_conv')

lemma assemble_file_total_size:
  "map_option total_size (map_of (upload_tracker (snd (assemble_file env fid w))) k) =
   map_option total_size (map_of (upload_tracker w) k)"
  using assemble_file_tracker [of env fid w]
  by (auto simp: update_conv')

lemma register_chunk_other:
  "k \<noteq> file_id c \<Longrightarrow> map_of (register_chunk c now t) k = map_of t k"
  by (simp add: register_chunk_def Let_def update_conv')

lemma register_chunk_new:
  "map_of t (file_id c) = None \<Longrightarrow>
   map_of (register_chunk c now t) (file_id c) =
     Some \<lparr>chunks = [new_entry c now], total_size = chunk_total_size c,
           last_updated = now, status = None\<rparr>"
  by (simp add: register_chunk_def Let_def update_conv')

lemma register_chunk_old:
  "map_of t (file_id c) = Some info \<Longrightarrow>
   map_of (register_chunk c now t) (file_id c) =
     Some (info\<lparr>chunks := chunks info @ [new_entry c now], last_updated := now\<rparr>)"
  by (simp add: register_chunk_def Let_def update_conv')

lemma register_chunk_session_chunks:
  assumes "upload_tracker w' = register_chunk c now (upload_tracker w)"
  shows "session_chunks k w' =
     (if k = file_id c then session_chunks k w @ [new_entry c now] else session_chunks k w)"
  by (cases "map_of (upload_tracker w) (file_id c)")
     (auto simp: session_chunks_def assms register_chunk_other register_chunk_new
        register_chunk_old)

lemma register_chunk_total_size:
  "map_of t k = Some info \<Longrightarrow>
   map_option total_size (map_of (register_chunk c now t) k) = Some (total_size info)"
  by (cases "k = file_id c") (simp_all add: register_chunk_other register_chunk_old)

lemma save_chunk_Written_world:
  "snd (save_chunk env Written now c w) =
     \<lparr>upload_tracker = register_chunk c now (upload_tracker w),
      disk = (disk w)(chunk_path (file_id c) (start_byte c) (end_byte c) \<mapsto> data c)\<rparr> \<or>
   snd (save_chunk env Written now c w) =
     snd (assemble_file env (file_id c)
       \<lparr>upload_tracker = register_chunk c now (upload_tracker w),
        disk = (disk w)(chunk_path (file_id c) (start_byte c) (end_byte c) \<mapsto> data c)\<rparr>)"
  by (auto simp: save_chunk_def write_file_def Let_def split: option.splits prod.splits sum.splits)

lemma save_chunk_failed_world:
  "wo \<noteq> Written \<Longrightarrow>
   fst (save_chunk env wo now c w) = Some OSError \<and>
   upload_tracker (snd (save_chunk env wo now c w)) = upload_tracker w"
  by (cases wo) (auto simp: save_chunk_def write_file_def)

lemma save_chunk_Written_chunks:
  "session_chunks k (snd (save_chunk env Written now c w)) =
     (if k = file_id c then session_chunks k w @ [new_entry c now] else session_chunks k w)"
proof -
  let ?w' = "\<lparr>upload_tracker = register_chunk c now (upload_tracker w),
             disk = (disk w)(chunk_path (file_id c) (start_byte c) (end_byte c) \<mapsto> data c)\<rparr>"
  have "session_chunks k ?w' =
     (if k = file_id c then session_chunks k w @ [new_entry c now] else session_chunks k w)"
    by (rule register_chunk_session_chunks) simp
  moreover have "session_chunks k (snd (save_chunk env Written now c w)) = session_chunks k ?w'"
    using save_chunk_Written_world [of env now c w]
    by (auto simp: assemble_file_session_chunks)
  ultimately show ?thesis by simp
qed

lemma save_chunk_total_size:
  assumes "map_of (upload_tracker w) k = Some info"
  shows "map_option total_size (map_of (upload_tracker (snd (save_chunk env wo now c w))) k) =
         Some (total_size info)"
proof (cases "wo = Written")
  case True
  let ?w' = "\<lparr>upload_tracker = register_chunk c now (upload_tracker w),
             disk = (disk w)(chunk_path (file_id c) (start_byte c) (end_byte c) \<mapsto> data c)\<rparr>"
  have reg: "map_option total_size (map_of (upload_tracker ?w') k) = Some (total_size info)"
    using register_chunk_total_size [OF assms] by simp
  have "map_option total_size (map_of (upload_tracker (snd (save_chunk env Written now c w))) k) =
        map_option total_size (map_of (upload_tracker ?w') k)"
    using save_chunk_Written_world [of env now c w] assemble_file_total_size [of env "file_id c" ?w' k]
    by (elim disjE) simp_all
  with reg show ?thesis unfolding True by simp
next
  case False
  then show ?thesis
    using save_chunk_failed_world [of wo env now c w] assms by simp
qed

lemma received_bytes_session_chunks:
  "received_bytes (get_file_status fid w) = total_received (session_chunks fid w)"
  by (simp add: get_file_status_def session_chunks_def total_received_def split: option.splits)

lemma total_received_append:
  "total_received (xs @ ys) = total_received xs + total_received ys"
  by (simp add: total_received_def)

lemma ingest_session_chunks:
  "list_all (\<lambda>(t, c). file_id c = fid) cs \<Longrightarrow>
   session_chunks fid (ingest env cs w) = session_chunks fid w @ map (\<lambda>(t, c). new_entry c t) cs"
proof (induction cs arbitrary: w)
  case Nil
  then show ?case by simp
next
  case (Cons a cs)
  obtain t c where a: "a = (t, c)" by (cases a)
  with Cons.prems have "file_id c = fid" and rest: "list_all (\<lambda>(t, c). file_id c = fid) cs"
    by simp_all
  then show ?case
    using Cons.IH [OF rest, of "snd (save_chunk env Written t c w)"]
    by (simp add: a save_chunk_Written_chunks)
qed

lemma total_received_new_entries:
  "total_received (map (\<lambda>(t, c). new_entry c t) cs) =
   (\<Sum>(t, c)\<leftarrow>cs. end_byte c - start_byte c + 1)"
  by (induction cs) (auto simp: total_received_def chunk_len_def new_entry_def)

lemma ingest_received_bytes:
  assumes "list_all (\<lambda>(t, c). file_id c = fid) cs"
  shows "received_bytes (get_file_status fid (ingest env cs w)) =
         received_bytes (get_file_status fid w) + (\<Sum>(t, c)\<leftarrow>cs. end_byte c - start_byte c + 1)"
  by (simp add: received_bytes_session_chunks ingest_session_chunks [OF assms]
        total_received_append total_received_new_entries)

lemma session_chunks_overlap_world:
  "session_chunks ''f'' overlap_world =
     [\<lparr>e_start = 0, e_end = 99, e_path = ''chunks/f_0_99.chunk'', e_checksum = 0, e_timestamp = 10\<rparr>,
      \<lparr>e_start = 50, e_end = 149, e_path = ''chunks/f_50_149.chunk'', e_checksum = 0, e_timestamp = 20\<rparr>]"
  by (simp add: overlap_world_def eval_defs)

lemma coveredBytes_overlap_world:
  "coveredBytes (session_chunks ''f'' overlap_world) = 150"
proof -
  have "{0..99::int} \<union> {50..149} = {0..149}" by auto
  then show ?thesis by (simp add: session_chunks_overlap_world coveredBytes_def coverage_def)
qed

section \<open>Claims about ingestion\<close>

text \<open>
  C1, as the code has it. The specification asks for the length of the merged union of the
  ingested ranges. \<^verbatim>\<open>get_file_status\<close> reports the sum of the lengths of all recorded
  chunks instead: after any run of accepted chunks of one file, \<^verbatim>\<open>received_bytes\<close> has
  grown by the sum of \<^verbatim>\<open>end - start + 1\<close> over the chunks of the run, overlaps counted
  as often as they were sent.
\<close>

theorem C1_received_bytes_sums_chunk_lengths:
  assumes "list_all (\<lambda>(t, c). file_id c = fid) cs"
  shows "received_bytes (get_file_status fid (ingest env cs w)) =
         received_bytes (get_file_status fid w) + (\<Sum>(t, c)\<leftarrow>cs. end_byte c - start_byte c + 1)"
  using assms by (rule ingest_received_bytes)

theorem C1_received_bytes_sums_chunk_lengths_witness:
  "received_bytes (get_file_status ''f'' overlap_world) = 200"
  using C1_received_bytes_sums_chunk_lengths
    [of "''f''" "[(10, mk_chunk ''f'' 0 99 (replicate 100 0) None),
                  (20, mk_chunk ''f'' 50 149 (replicate 100 0) None)]" calm empty_world]
  by (simp add: overlap_world_def mk_chunk_def get_file_status_def empty_world_def)

text \<open>
  C1 as stated fails: after chunk [0,99] and chunk [50,149] the merged coverage is 150 bytes
  and the reported value is 200.
\<close>

theorem C1_counterexample:
  "coveredBytes (session_chunks ''f'' overlap_world) = 150 \<and>
   received_bytes (get_file_status ''f'' overlap_world) = 200 \<and>
   received_bytes (get_file_status ''f'' overlap_world) \<noteq>
     coveredBytes (session_chunks ''f'' overlap_world)"
proof -
  have "received_bytes (get_file_status ''f'' overlap_world) = 200"
    by (simp add: received_bytes_session_chunks session_chunks_overlap_world
          total_received_def chunk_len_def)
  then show ?thesis
    using coveredBytes_overlap_world by simp
qed

text \<open>
  C3, as the code has it. Ingesting the same chunk again appends another record, so each
  repetition raises \<^verbatim>\<open>received_bytes\<close> by \<^verbatim>\<open>end - start + 1\<close>: the value is left
  unchanged only by a chunk whose range is empty.
\<close>

theorem C3_reingestion_adds_chunk_length:
  "received_bytes (get_file_status (file_id c) (ingest env (map (\<lambda>t. (t, c)) ts) w)) =
   received_bytes (get_file_status (file_id c) w) +
     int (length ts) * (end_byte c - start_byte c + 1)"
proof -
  let ?cs = "map (\<lambda>t. (t, c)) ts"
  have all: "list_all (\<lambda>(t, c'). file_id c' = file_id c) ?cs"
    by (induction ts) simp_all
  have sum: "(\<Sum>(t, c')\<leftarrow>?cs. end_byte c' - start_byte c' + 1) =
        int (length ts) * (end_byte c - start_byte c + 1)"
    by (induction ts) (simp_all add: distrib_right)
  show ?thesis
    using ingest_received_bytes [OF all, of env w] sum by (simp only:)
qed

theorem C3_reingestion_adds_chunk_length_witness:
  "received_bytes (get_file_status ''f'' twice_world) =
   received_bytes (get_file_status ''f'' once_world) + 100"
  using C3_reingestion_adds_chunk_length
    [of "mk_chunk ''f'' 0 99 (replicate 100 0) None" calm "[20]" once_world]
  by (simp add: once_world_def twice_world_def mk_chunk_def)

text \<open>C3 as stated fails: the second delivery of chunk [0,99] changes the reported value.\<close>

theorem C3_counterexample:
  "received_bytes (get_file_status ''f'' twice_world) \<noteq>
   received_bytes (get_file_status ''f'' once_world)"
  by (simp add: once_world_def twice_world_def eval_defs)


text \<open>
  C8. When the fragment write fails, \<^verbatim>\<open>save_chunk\<close> raises before it touches
  \<^verbatim>\<open>upload_tracker\<close>: the call reports \<^verbatim>\<open>OSError\<close> and the registry, hence
  every session's chunk records, total size, status and \<^verbatim>\<open>last_updated\<close>, is the one
  from before the call. The request handler passes the error on and returns no
  \<^verbatim>\<open>next_byte\<close>.
\<close>

theorem C8_failed_write_leaves_registry:
  assumes "wo \<noteq> Written"
  shows "fst (save_chunk env wo now c w) = Some OSError \<and>
         upload_tracker (snd (save_chunk env wo now c w)) = upload_tracker w \<and>
         get_file_status fid (snd (save_chunk env wo now c w)) = get_file_status fid w \<and>
         (\<forall>n. fst (upload_file_chunk tok env wo now fid' cr raw w) \<noteq> Inr n) \<and>
         upload_tracker (snd (upload_file_chunk tok env wo now fid' cr raw w)) = upload_tracker w"
proof -
  have s: "fst (save_chunk env wo now c' w) = Some OSError \<and>
           upload_tracker (snd (save_chunk env wo now c' w)) = upload_tracker w" for c'
    using assms by (rule save_chunk_failed_world)
  have k1: "save_chunk env wo now c' w = (None, w') \<Longrightarrow> False" for c' w'
    using s [of c'] by simp
  have k2: "save_chunk env wo now c' w = (Some e', w') \<Longrightarrow> upload_tracker w' = upload_tracker w"
    for c' e' w'
    using s [of c'] by simp
  have u: "(\<forall>n. fst (upload_file_chunk tok env wo now fid' cr raw w) \<noteq> Inr n) \<and>
        upload_tracker (snd (upload_file_chunk tok env wo now fid' cr raw w)) = upload_tracker w"
  proof (cases cr)
    case (Range u s' e tot)
    then show ?thesis
      by (cases tot)
         (auto simp: upload_file_chunk_def Let_def split: prod.splits option.splits
               dest: k1 k2)
  qed (simp_all add: upload_file_chunk_def)
  from s [of c] u show ?thesis
    by (simp add: get_file_status_def)
qed

theorem C8_failed_write_leaves_registry_witness:
  "fst (save_chunk calm (WriteFailed 3) 20 (mk_chunk ''f'' 10 19 (replicate 10 0) (Some 100)) sized_world)
     = Some OSError \<and>
   upload_tracker (snd (save_chunk calm (WriteFailed 3) 20
       (mk_chunk ''f'' 10 19 (replicate 10 0) (Some 100)) sized_world))
     = upload_tracker sized_world \<and>
   received_bytes (get_file_status ''f'' (snd (save_chunk calm (WriteFailed 3) 20
       (mk_chunk ''f'' 10 19 (replicate 10 0) (Some 100)) sized_world))) = 10"
  using C8_failed_write_leaves_registry
    [of "WriteFailed 3" calm 20 "mk_chunk ''f'' 10 19 (replicate 10 0) (Some 100)" sized_world "''f''"]
  by (simp add: sized_world_def eval_defs)

text \<open>
  C4, as the code has it. \<^verbatim>\<open>upload_file_chunk\<close> answers an accepted chunk with
  \<^verbatim>\<open>end_byte + 1\<close> of that chunk, whatever else the session holds.
\<close>

theorem C4_next_byte_is_end_plus_one:
  assumes "fst (upload_file_chunk tok env wo now fid (Range u s e tot) raw w) = Inr n"
  shows "n = e + 1"
  using assms
  by (cases tot)
     (auto simp: upload_file_chunk_def Let_def split: if_splits prod.splits option.splits)

theorem C4_next_byte_is_end_plus_one_witness:
  "fst (upload_file_chunk True calm Written 5 ''f'' (Range ''bytes'' 50 99 Star) (replicate 62 0)
        empty_world) = Inr 100"
proof -
  have r: "fst (upload_file_chunk True calm Written 5 ''f'' (Range ''bytes'' 50 99 Star)
                 (replicate 62 0) empty_world) = Inr 100"
    by (simp add: upload_file_chunk_def eval_defs)
  from C4_next_byte_is_end_plus_one [OF r] r show ?thesis by simp
qed

text \<open>
  C4 as stated fails: chunk [50,99] as the only chunk of a session is answered with 100,
  although byte 0 is not covered.
\<close>

theorem C4_counterexample:
  "fst (upload_file_chunk True calm Written 5 ''f'' (Range ''bytes'' 50 99 Star) (replicate 62 0)
        empty_world) \<noteq> Inr 0 \<and>
   0 \<notin> coverage (session_chunks ''f''
          (snd (upload_file_chunk True calm Written 5 ''f'' (Range ''bytes'' 50 99 Star)
                 (replicate 62 0) empty_world)))"
  by (simp add: upload_file_chunk_def coverage_def eval_defs)

text \<open>
  C7, as the code has it. The total size of a session is the one its first chunk declared
  (known or not) and no call of \<^verbatim>\<open>save_chunk\<close> changes it. A later chunk that declares
  another total size is not rejected: when its fragment is written, its record is appended
  to the session like any other.
\<close>

theorem C7_total_size_kept_and_conflict_accepted:
  assumes "map_of (upload_tracker w) fid = Some info"
  shows "map_option total_size (map_of (upload_tracker (snd (save_chunk env wo now c w))) fid) =
           Some (total_size info) \<and>
         session_chunks (file_id c) (snd (save_chunk env Written now c w)) =
           session_chunks (file_id c) w @ [new_entry c now]"
  using save_chunk_total_size [OF assms] by (simp add: save_chunk_Written_chunks)

theorem C7_total_size_kept_and_conflict_accepted_witness:
  "map_option total_size (map_of (upload_tracker (snd (save_chunk calm Written 20
       (mk_chunk ''f'' 10 19 (replicate 10 0) (Some 50)) sized_world))) ''f'') = Some (Some 100) \<and>
   length (session_chunks ''f'' (snd (save_chunk calm Written 20
       (mk_chunk ''f'' 10 19 (replicate 10 0) (Some 50)) sized_world))) = 2"
proof -
  have l: "map_of (upload_tracker sized_world) ''f'' =
     Some \<lparr>chunks = [\<lparr>e_start = 0, e_end = 9, e_path = ''chunks/f_0_9.chunk'', e_checksum = 0,
                       e_timestamp = 10\<rparr>],
           total_size = Some 100, last_updated = 10, status = None\<rparr>"
    by (simp add: sized_world_def eval_defs)
  from C7_total_size_kept_and_conflict_accepted
         [OF l, of calm Written 20 "mk_chunk ''f'' 10 19 (replicate 10 0) (Some 50)"]
  show ?thesis
    by (simp add: mk_chunk_def session_chunks_def l)
qed

text \<open>
  C7 as stated fails: a session that recorded a total size of 100 accepts a chunk that
  declares 50, without an error and with a changed session.
\<close>

theorem C7_counterexample:
  "fst (save_chunk calm Written 20 (mk_chunk ''f'' 10 19 (replicate 10 0) (Some 50)) sized_world)
     = None \<and>
   upload_tracker (snd (save_chunk calm Written 20
       (mk_chunk ''f'' 10 19 (replicate 10 0) (Some 50)) sized_world))
     \<noteq> upload_tracker sized_world"
  by (simp add: sized_world_def eval_defs)

text \<open>
  C2 at a failing input. Bytes 0 to 2 of a file declared as 4 bytes arrive, then byte 0
  arrives again. The merged coverage is the three bytes 0 to 2, one short of the file, yet
  the lengths of the two records add up to 4: \<^verbatim>\<open>save_chunk\<close> calls
  \<^verbatim>\<open>assemble_file\<close>, which writes the artifact and marks the session complete.
\<close>

theorem C2_complete_one_byte_short:
  "total_bytes (get_file_status ''f'' retransmit_world) = Some 4 \<and>
   coverage (session_chunks ''f'' retransmit_world) = {0..2} \<and>
   coveredBytes (session_chunks ''f'' retransmit_world) = 3 \<and>
   st_status (get_file_status ''f'' retransmit_world) = ''complete'' \<and>
   disk retransmit_world (artifact_path ''f'') = Some [1, 2, 3, 1]"
proof -
  have t: "upload_tracker retransmit_world =
    [(''f'', \<lparr>chunks = [\<lparr>e_start = 0, e_end = 2, e_path = ''chunks/f_0_2.chunk'',
                          e_checksum = 6, e_timestamp = 10\<rparr>,
                        \<lparr>e_start = 0, e_end = 0, e_path = ''chunks/f_0_0.chunk'',
                          e_checksum = 1, e_timestamp = 20\<rparr>],
              total_size = Some 4, last_updated = 20, status = Some ''complete''\<rparr>)]"
    by (simp add: retransmit_world_def eval_defs)
  have d: "disk retransmit_world (artifact_path ''f'') = Some [1, 2, 3, 1]"
    by (simp add: retransmit_world_def eval_defs)
  have u: "insert 0 {0..2::int} = {0..2}" by auto
  have c: "coverage (session_chunks ''f'' retransmit_world) = {0..2}"
    by (simp add: coverage_def session_chunks_def t u)
  show ?thesis
    by (simp add: c coveredBytes_def d) (simp add: get_file_status_def t)
qed


section \<open>Paths of different sessions are different\<close>

lemma digit_char_not_underscore:
  "n < 10 \<Longrightarrow> digit_char n \<noteq> CHR ''_''"
proof -
  assume "n < 10"
  then have "n \<in> {0, 1, 2, 3, 4, 5, 6, 7, 8, 9}" by auto
  then show ?thesis by (auto simp: digit_char_def)
qed

lemma str_nat_no_underscore:
  "CHR ''_'' \<notin> set (str_nat n)"
proof (induction n rule: str_nat.induct)
  case (1 n)
  show ?case
  proof (cases "n < 10")
    case True
    then show ?thesis
      using digit_char_not_underscore [of n] by (subst str_nat.simps) auto
  next
    case False
    have "n mod 10 < 10" by simp
    then have "digit_char (n mod 10) \<noteq> CHR ''_''" by (rule digit_char_not_underscore)
    with False "1.IH" show ?thesis
      by (subst str_nat.simps) auto
  qed
qed

lemma str_int_no_underscore:
  "CHR ''_'' \<notin> set (str_int i)"
  by (simp add: str_int_def str_nat_no_underscore)

lemma split_at_last_separator:
  assumes "xs @ c # a = ys @ c # b" and "c \<notin> set a" and "c \<notin> set b"
  shows "xs = ys \<and> a = b"
  using assms
proof (induction xs arbitrary: ys)
  case Nil
  then show ?case by (cases ys) auto
next
  case (Cons x xs)
  then show ?case by (cases ys) auto
qed

lemma chunk_name_inj:
  assumes "f @ ''_'' @ str_int s @ ''_'' @ str_int e @ ''.chunk'' =
           f' @ ''_'' @ str_int s' @ ''_'' @ str_int e' @ ''.chunk''"
  shows "f = f'"
proof -
  have "(f @ ''_'' @ str_int s) @ CHR ''_'' # (str_int e @ ''.chunk'') =
        (f' @ ''_'' @ str_int s') @ CHR ''_'' # (str_int e' @ ''.chunk'')"
    using assms by simp
  then have "f @ ''_'' @ str_int s = f' @ ''_'' @ str_int s'"
    by (rule split_at_last_separator [THEN conjunct1])
       (simp_all add: str_int_no_underscore)
  then have "f @ CHR ''_'' # str_int s = f' @ CHR ''_'' # str_int s'"
    by simp
  then show ?thesis
    by (rule split_at_last_separator [THEN conjunct1])
       (simp_all add: str_int_no_underscore)
qed

lemma path_join_inj:
  assumes "path_join a b = path_join a b'" and "b \<noteq> []" and "b' \<noteq> []"
    and "a \<noteq> []" and "hd a \<noteq> CHR ''/''"
  shows "b = b'"
proof -
  obtain x xs where b: "b = x # xs" using assms(2) by (cases b) auto
  obtain y ys where b': "b' = y # ys" using assms(3) by (cases b') auto
  obtain z zs where a: "a = z # zs" and z: "z \<noteq> CHR ''/''"
    using assms(4,5) by (cases a) auto
  show ?thesis
    using assms(1) z by (auto simp: path_join_def a b b' split: if_splits)
qed

lemma path_join_last:
  "b \<noteq> [] \<Longrightarrow> last (path_join a b) = last b"
  by (cases b) (auto simp: path_join_def)

lemma chunk_path_inj:
  assumes "chunk_path f s e = chunk_path f' s' e'"
  shows "f = f'"
proof -
  have "f @ ''_'' @ str_int s @ ''_'' @ str_int e @ ''.chunk'' =
        f' @ ''_'' @ str_int s' @ ''_'' @ str_int e' @ ''.chunk''"
    using assms unfolding chunk_path_def
    by (rule path_join_inj) (simp_all add: CHUNK_DIR_def)
  then show ?thesis by (rule chunk_name_inj)
qed

lemma incomplete_path_inj:
  assumes "incomplete_path f = incomplete_path f'"
  shows "f = f'"
proof -
  have "f @ ''.incomplete'' = f' @ ''.incomplete''"
    using assms unfolding incomplete_path_def
    by (rule path_join_inj) (simp_all add: UPLOAD_DIR_def)
  then show ?thesis by simp
qed

lemma chunk_path_not_incomplete_path:
  "chunk_path f s e \<noteq> incomplete_path f'"
proof
  assume "chunk_path f s e = incomplete_path f'"
  then have "last (chunk_path f s e) = last (incomplete_path f')" by simp
  then show False
    by (simp add: chunk_path_def incomplete_path_def path_join_last)
qed

lemma artifact_path_not_chunk_path:
  "artifact_path f \<noteq> chunk_path f s e"
proof (cases f)
  case Nil
  then show ?thesis
    by (simp add: artifact_path_def chunk_path_def path_join_def UPLOAD_DIR_def CHUNK_DIR_def)
next
  case (Cons x xs)
  show ?thesis
  proof (cases "x = CHR ''/''")
    case True
    then show ?thesis
      by (simp add: artifact_path_def chunk_path_def path_join_def Cons)
  next
    case False
    then show ?thesis
      by (simp add: artifact_path_def chunk_path_def path_join_def UPLOAD_DIR_def CHUNK_DIR_def Cons)
  qed
qed

lemma registry_inv_path:
  assumes "registry_inv w" and "item \<in> set (upload_tracker w)" and "c \<in> set (chunks (snd item))"
  shows "e_path c = chunk_path (fst item) (e_start c) (e_end c)"
  using assms by (auto simp: registry_inv_def list_all_iff)


lemma artifact_path_not_a_fragment:
  assumes inv: "registry_inv w" and look: "map_of (upload_tracker w) fid = Some info"
  shows "artifact_path fid \<notin> e_path ` set (chunks info)"
proof
  assume "artifact_path fid \<in> e_path ` set (chunks info)"
  then obtain c where c: "c \<in> set (chunks info)" and e: "artifact_path fid = e_path c"
    by (rule imageE)
  from look have mem: "(fid, info) \<in> set (upload_tracker w)" by (rule map_of_SomeD)
  from registry_inv_path [OF inv mem] c e
  have "artifact_path fid = chunk_path fid (e_start c) (e_end c)" by simp
  then show False by (simp add: artifact_path_not_chunk_path)
qed


section \<open>Assembly\<close>

lemma append_file_existing:
  "d out = Some old \<Longrightarrow> append_file out bs d = d(out \<mapsto> old @ bs)"
  by (simp add: append_file_def)

lemma copy_chunks_all_present:
  assumes "d out = Some old"
    and "out \<notin> e_path ` set cs"
    and "\<forall>c\<in>set cs. d (e_path c) \<noteq> None"
  shows "copy_chunks None out cs d =
           (None, d(out \<mapsto> old @ concat (map (\<lambda>c. the (d (e_path c))) cs)))"
  using assms
proof (induction cs arbitrary: d old)
  case Nil
  then show ?case by (simp add: map_upd_triv)
next
  case (Cons c cs)
  from Cons.prems obtain bs where bs: "d (e_path c) = Some bs" by auto
  let ?d = "d(out \<mapsto> old @ bs)"
  have step: "copy_chunks None out (c # cs) d = copy_chunks None out cs ?d"
    using Cons.prems(1) by (simp add: bs append_file_existing)
  have same: "?d (e_path c') = d (e_path c')" if "c' \<in> set cs" for c'
  proof -
    have "e_path c' \<noteq> out" using that Cons.prems(2) by (metis imageI list.set_intros(2))
    then show ?thesis by simp
  qed
  have meq: "map (\<lambda>c. the (?d (e_path c))) cs = map (\<lambda>c. the (d (e_path c))) cs"
    using same by simp
  have "copy_chunks None out cs ?d =
          (None, ?d(out \<mapsto> (old @ bs) @ concat (map (\<lambda>c. the (?d (e_path c))) cs)))"
  proof (rule Cons.IH [of ?d "old @ bs"])
    show "?d out = Some (old @ bs)" by simp
    show "out \<notin> e_path ` set cs" using Cons.prems(2) by simp
    show "\<forall>c\<in>set cs. ?d (e_path c) \<noteq> None" using Cons.prems(3) same by simp
  qed
  then have rest: "copy_chunks None out cs ?d =
          (None, d(out \<mapsto> old @ bs @ concat (map (\<lambda>c. the (d (e_path c))) cs)))"
    by (simp only: meq fun_upd_upd append_assoc)
  have cc: "old @ concat (map (\<lambda>c. the (d (e_path c))) (c # cs)) =
            old @ bs @ concat (map (\<lambda>c. the (d (e_path c))) cs)"
    by (simp add: bs)
  show ?case
    unfolding step cc by (rule rest)
qed

lemma remove_files_apply:
  "remove_files ps d p = (if p \<in> set ps then None else d p)"
  by (induction ps arbitrary: d) auto

lemma sum_list_insort_key:
  "sum_list (map g (insort_key f x xs)) = g x + sum_list (map g xs)"
  for g :: "'a \<Rightarrow> int"
  by (induction xs) auto

lemma sum_list_sort_key:
  "sum_list (map g (sort_key f xs)) = sum_list (map g xs)"
  for g :: "'a \<Rightarrow> int"
  by (induction xs) (auto simp: sum_list_insort_key)

lemma int_length_concat:
  "int (length (concat xss)) = sum_list (map (\<lambda>xs. int (length xs)) xss)"
  by (induction xss) auto

lemma total_received_sort_key:
  "total_received (sort_key f cs) = total_received cs"
  by (simp add: total_received_def sum_list_sort_key)

lemma write_artifact_all_present:
  assumes apart: "out \<notin> e_path ` set cs"
    and present: "\<forall>c\<in>set cs. d (e_path c) \<noteq> None"
  shows "write_artifact Written out cs d =
           (None, d(out \<mapsto> concat (map (\<lambda>c. the (d (e_path c))) cs)))"
proof -
  let ?d = "d(out \<mapsto> [])"
  have same: "?d (e_path c) = d (e_path c)" if "c \<in> set cs" for c
  proof -
    have "e_path c \<noteq> out" using that apart by (metis imageI)
    then show ?thesis by simp
  qed
  have c1: "copy_chunks None out cs ?d =
          (None, ?d(out \<mapsto> [] @ concat (map (\<lambda>c. the (?d (e_path c))) cs)))"
  proof (rule copy_chunks_all_present)
    show "?d out = Some []" by simp
    show "out \<notin> e_path ` set cs" by (rule apart)
    show "\<forall>c\<in>set cs. ?d (e_path c) \<noteq> None" using present same by simp
  qed
  have meq: "map (\<lambda>c. the (?d (e_path c))) cs = map (\<lambda>c. the (d (e_path c))) cs"
    using same by simp
  have "copy_chunks None out cs ?d =
          (None, d(out \<mapsto> concat (map (\<lambda>c. the (d (e_path c))) cs)))"
    using c1 by (simp only: meq fun_upd_upd append_Nil)
  then show ?thesis
    by (simp only: write_artifact_def write_outcome.case)
qed

lemma copy_chunks_out_of_room:
  "fst (copy_chunks (Some k) out cs d) \<noteq> None"
  by (induction cs arbitrary: k d) (auto split: option.splits)

lemma write_artifact_failed:
  "wo \<noteq> Written \<Longrightarrow> fst (write_artifact wo out cs d) \<noteq> None"
  by (cases wo) (simp_all add: write_artifact_def copy_chunks_out_of_room)

lemma assemble_file_runs:
  assumes info: "map_of (upload_tracker w) fid = Some info"
    and size: "total_size info = Some n"
    and enough: "n \<le> total_received (chunks info)"
    and present: "\<forall>c\<in>set (chunks info). disk w (e_path c) \<noteq> None"
    and apart: "artifact_path fid \<notin> e_path ` set (chunks info)"
    and written: "artifact_write env (artifact_path fid) = Written"
  shows "assemble_file env fid w =
    (Inr True,
     \<lparr>upload_tracker = AList.update fid (info\<lparr>status := Some ''complete''\<rparr>) (upload_tracker w),
      disk = remove_files (map e_path (sort_key e_start (chunks info)))
               ((disk w)(artifact_path fid \<mapsto>
                  concat (map (\<lambda>c. the (disk w (e_path c))) (sort_key e_start (chunks info)))))\<rparr>)"
proof -
  let ?cs = "sort_key e_start (chunks info)"
  have c2: "write_artifact Written (artifact_path fid) ?cs (disk w) =
          (None, (disk w)(artifact_path fid \<mapsto> concat (map (\<lambda>c. the (disk w (e_path c))) ?cs)))"
  proof (rule write_artifact_all_present)
    show "artifact_path fid \<notin> e_path ` set ?cs" using apart by simp
    show "\<forall>c\<in>set ?cs. disk w (e_path c) \<noteq> None" using present by simp
  qed
  show ?thesis
    using enough
    by (simp add: assemble_file_def info size total_received_sort_key written c2 Let_def)
qed

text \<open>
  When the artifact cannot be opened, \<^verbatim>\<open>assemble_file\<close> raises and the registry is as
  before: the session is not marked complete.
\<close>

lemma assemble_file_open_failed:
  assumes "map_of (upload_tracker w) fid = Some info"
    and "total_size info = Some n"
    and "n \<le> total_received (chunks info)"
    and "artifact_write env (artifact_path fid) = OpenFailed"
  shows "assemble_file env fid w = (Inl OSError, w)"
  using assms
  by (simp add: assemble_file_def total_received_sort_key write_artifact_def Let_def)

text \<open>
  C9, as the code has it. When \<^verbatim>\<open>assemble_file\<close> finds a recorded total size that the
  summed chunk lengths reach, every fragment on disk, and an artifact that it can write, it
  writes the content of the fragment file of every recorded chunk, in ascending order of
  start (stable for equal starts), and marks the session complete. Where each fragment holds
  as many bytes as its range says, the artifact is as long as the sum of the chunk lengths,
  which is at least the declared total size, and equal to it when the lengths add up to
  exactly that.
\<close>

theorem C9_artifact_is_all_fragments_in_start_order:
  assumes "registry_inv w"
    and "map_of (upload_tracker w) fid = Some info"
    and "total_size info = Some n"
    and "n \<le> total_received (chunks info)"
    and "\<forall>c\<in>set (chunks info). disk w (e_path c) \<noteq> None"
    and "artifact_write env (artifact_path fid) = Written"
  shows "fst (assemble_file env fid w) = Inr True \<and>
         st_status (get_file_status fid (snd (assemble_file env fid w))) = ''complete'' \<and>
         disk (snd (assemble_file env fid w)) (artifact_path fid) =
           Some (concat (map (\<lambda>c. the (disk w (e_path c))) (sort_key e_start (chunks info)))) \<and>
         ((\<forall>c\<in>set (chunks info). int (length (the (disk w (e_path c)))) = chunk_len c) \<longrightarrow>
            int (length (the (disk (snd (assemble_file env fid w)) (artifact_path fid)))) =
              total_received (chunks info) \<and>
            n \<le> int (length (the (disk (snd (assemble_file env fid w)) (artifact_path fid)))))"
proof -
  let ?cs = "sort_key e_start (chunks info)"
  have apart: "artifact_path fid \<notin> e_path ` set (chunks info)"
    using assms(1,2) by (rule artifact_path_not_a_fragment)
  note run = assemble_file_runs [OF assms(2,3,4,5) apart assms(6)]
  have art: "disk (snd (assemble_file env fid w)) (artifact_path fid) =
           Some (concat (map (\<lambda>c. the (disk w (e_path c))) ?cs))"
    using apart by (simp add: run remove_files_apply)
  have st: "fst (assemble_file env fid w) = Inr True \<and>
         st_status (get_file_status fid (snd (assemble_file env fid w))) = ''complete''"
    by (simp add: run get_file_status_def update_conv')
  have len: "int (length (concat (map (\<lambda>c. the (disk w (e_path c))) ?cs))) =
             total_received (chunks info)"
    if full: "\<forall>c\<in>set (chunks info). int (length (the (disk w (e_path c)))) = chunk_len c"
  proof -
    have "map (\<lambda>c. int (length (the (disk w (e_path c))))) ?cs = map chunk_len ?cs"
      using full by auto
    then have "sum_list (map (\<lambda>c. int (length (the (disk w (e_path c))))) ?cs) =
               sum_list (map chunk_len ?cs)"
      by (rule arg_cong)
    then have "int (length (concat (map (\<lambda>c. the (disk w (e_path c))) ?cs))) =
               sum_list (map chunk_len ?cs)"
      by (simp add: int_length_concat comp_def)
    then show ?thesis
      using total_received_sort_key [of e_start "chunks info"] by (simp add: total_received_def)
  qed
  show ?thesis
    using st assms(4) len by (simp add: art)
qed

lemma unassembled_world_tracker:
  "upload_tracker unassembled_world =
    [(''f'', \<lparr>chunks = [\<lparr>e_start = 0, e_end = 1, e_path = ''chunks/f_0_1.chunk'',
                          e_checksum = 3, e_timestamp = 10\<rparr>,
                        \<lparr>e_start = 1, e_end = 2, e_path = ''chunks/f_1_2.chunk'',
                          e_checksum = 5, e_timestamp = 20\<rparr>],
              total_size = Some 4, last_updated = 20, status = None\<rparr>)]"
  by (simp add: unassembled_world_def eval_defs)

lemma unassembled_world_inv:
  "registry_inv unassembled_world"
  by (simp add: registry_inv_def unassembled_world_tracker chunk_path_def path_join_def
        CHUNK_DIR_def str_int_def str_nat.simps digit_char_def)

theorem C9_artifact_is_all_fragments_in_start_order_witness:
  "fst (assemble_file calm ''f'' unassembled_world) = Inr True \<and>
   disk (snd (assemble_file calm ''f'' unassembled_world)) (artifact_path ''f'') =
     Some [1, 2, 2, 3] \<and>
   int (length (the (disk (snd (assemble_file calm ''f'' unassembled_world))
     (artifact_path ''f'')))) = 4"
proof -
  have d1: "disk unassembled_world ''chunks/f_0_1.chunk'' = Some [1, 2]"
    by (simp add: unassembled_world_def eval_defs)
  have d2: "disk unassembled_world ''chunks/f_1_2.chunk'' = Some [2, 3]"
    by (simp add: unassembled_world_def eval_defs)
  from C9_artifact_is_all_fragments_in_start_order
    [OF unassembled_world_inv, of "''f''" _ 4 calm, simplified unassembled_world_tracker, simplified]
  show ?thesis
    by (simp add: d1 d2 total_received_def chunk_len_def calm_def)
qed

text \<open>
  C9 as stated fails: the chunks [0,1] and [1,2] overlap in byte 1, the session declares
  4 bytes, and the assembled artifact has 4 bytes, which does not exceed the declared size.
\<close>

theorem C9_counterexample:
  "1 \<in> {0..1::int} \<inter> {1..2} \<and>
   map (\<lambda>c. (e_start c, e_end c)) (session_chunks ''f'' overlap4_world) = [(0, 1), (1, 2)] \<and>
   total_bytes (get_file_status ''f'' overlap4_world) = Some 4 \<and>
   st_status (get_file_status ''f'' overlap4_world) = ''complete'' \<and>
   disk overlap4_world (artifact_path ''f'') = Some [1, 2, 2, 3] \<and>
   \<not> 4 < int (length [1, 2, 2, 3 :: byte])"
  by (simp add: overlap4_world_def eval_defs)


section \<open>The two loops of the sweep\<close>

lemma stale_iff:
  "stale th cs \<longleftrightarrow> (\<forall>c\<in>set cs. e_timestamp c \<le> th)"
proof (induction cs)
  case Nil
  show ?case by simp
next
  case (Cons c cs)
  show ?case
  proof (cases "th < e_timestamp c")
    case True
    then show ?thesis by (simp only: stale.simps if_True list.set ball_simps) simp
  next
    case False
    then show ?thesis by (simp only: stale.simps if_False list.set ball_simps Cons.IH) simp
  qed
qed

lemma recent_activity_iff:
  "recent_activity th cs \<longleftrightarrow> (\<exists>c\<in>set cs. th < e_timestamp c)"
  by (simp add: recent_activity_def list_ex_iff)

lemma delete_as_filter:
  "AList.delete k t = filter (\<lambda>item. fst item \<noteq> k) t"
proof (induction t)
  case Nil
  show ?case by simp
next
  case (Cons a t)
  then show ?case by (cases "fst a = k") simp_all
qed

lemma cleanup_loop_step:
  "cleanup_loop th (a # items) w =
     (if cleanup_reclaims th a
      then cleanup_loop th items
             \<lparr>upload_tracker = AList.delete (fst a) (upload_tracker w),
              disk = remove_files (map e_path (chunks (snd a))) (disk w)\<rparr>
      else cleanup_loop th items w)"
  by (cases a) (simp add: cleanup_reclaims_def)

lemma filter_delete:
  "filter (\<lambda>item. fst item \<notin> R) (AList.delete k t) =
   filter (\<lambda>item. fst item \<notin> insert k R) t"
  by (induction t) auto

lemma cleanup_loop_tracker:
  "upload_tracker (cleanup_loop th items w) =
     filter (\<lambda>item. fst item \<notin> fst ` set (filter (cleanup_reclaims th) items)) (upload_tracker w)"
proof (induction items arbitrary: w)
  case Nil
  then show ?case by simp
next
  case (Cons a items)
  show ?case
  proof (cases "cleanup_reclaims th a")
    case True
    then show ?thesis
      by (simp only: cleanup_loop_step Cons.IH filter_delete if_True filter.simps
            list.set image_insert world.simps)
  next
    case False
    then show ?thesis
      by (simp only: cleanup_loop_step Cons.IH if_False filter.simps)
  qed
qed

lemma cleanup_paths_Cons:
  "cleanup_paths th (a # items) =
     (if cleanup_reclaims th a then e_path ` set (chunks (snd a)) \<union> cleanup_paths th items
      else cleanup_paths th items)"
  by (simp add: cleanup_paths_def)

lemma cleanup_loop_disk:
  "disk (cleanup_loop th items w) p = (if p \<in> cleanup_paths th items then None else disk w p)"
proof (induction items arbitrary: w)
  case Nil
  then show ?case by (simp add: cleanup_paths_def)
next
  case (Cons a items)
  show ?case
  proof (cases "cleanup_reclaims th a")
    case True
    then show ?thesis
      by (simp add: cleanup_loop_step cleanup_paths_Cons Cons.IH remove_files_apply)
  next
    case False
    then show ?thesis
      by (simp add: cleanup_loop_step cleanup_paths_Cons Cons.IH)
  qed
qed

lemma persist_loop_skip:
  "\<not> persist_reclaims th a \<Longrightarrow> persist_loop art th (a # items) w = persist_loop art th items w"
  by (cases a) (auto simp: persist_reclaims_def)

lemma persist_loop_noop:
  "\<forall>item\<in>set items. \<not> persist_reclaims th item \<Longrightarrow> persist_loop art th items w = (None, w)"
  by (induction items) (simp_all add: persist_loop_skip)

lemma copy_chunks_elsewhere:
  "p \<noteq> out \<Longrightarrow> snd (copy_chunks room out cs d) p = d p"
  by (induction cs arbitrary: d room) (auto simp: append_file_def split: option.splits)

lemma write_artifact_elsewhere:
  "p \<noteq> out \<Longrightarrow> snd (write_artifact wo out cs d) p = d p"
  by (cases wo) (simp_all add: write_artifact_def copy_chunks_elsewhere)

lemma persist_loop_untouched:
  "p \<notin> persist_paths th items \<Longrightarrow> disk (snd (persist_loop art th items w)) p = disk w p"
proof (induction items arbitrary: w)
  case Nil
  then show ?case by simp
next
  case (Cons a items)
  obtain fid info where a: "a = (fid, info)" by (cases a)
  show ?case
  proof (cases "persist_reclaims th a")
    case False
    with Cons.prems have "p \<notin> persist_paths th items"
      by (simp add: persist_paths_def)
    with False show ?thesis
      by (simp add: persist_loop_skip Cons.IH)
  next
    case True
    with Cons.prems have rest: "p \<notin> persist_paths th items"
      and out: "p \<noteq> incomplete_path fid" and frag: "p \<notin> e_path ` set (chunks info)"
      by (simp_all add: persist_paths_def a)
    let ?r = "write_artifact (art (incomplete_path fid)) (incomplete_path fid)
                (sort_key e_start (chunks info)) (disk w)"
    have copy: "snd ?r p = disk w p"
      using out by (simp add: write_artifact_elsewhere)
    show ?thesis
    proof (cases "fst ?r")
      case None
      then have "persist_loop art th (a # items) w =
          persist_loop art th items
            \<lparr>upload_tracker = AList.delete fid (upload_tracker w),
             disk = remove_files (map e_path (chunks info)) (snd ?r)\<rparr>"
        using True by (auto simp: a persist_reclaims_def split: prod.splits)
      then show ?thesis
        using frag copy by (simp add: Cons.IH [OF rest] remove_files_apply)
    next
      case (Some e)
      then have "persist_loop art th (a # items) w = (Some e, w\<lparr>disk := snd ?r\<rparr>)"
        using True by (auto simp: a persist_reclaims_def split: prod.splits)
      then show ?thesis
        using copy by simp
    qed
  qed
qed

lemma persist_loop_reclaim:
  "persist_reclaims th a \<Longrightarrow>
   persist_loop art th (a # items) w =
     (case write_artifact (art (incomplete_path (fst a))) (incomplete_path (fst a))
             (sort_key e_start (chunks (snd a))) (disk w) of
        (Some e, d) \<Rightarrow> (Some e, w\<lparr>disk := d\<rparr>)
      | (None, d) \<Rightarrow>
          persist_loop art th items
            \<lparr>upload_tracker = AList.delete (fst a) (upload_tracker w),
             disk = remove_files (map e_path (chunks (snd a))) d\<rparr>)"
proof -
  assume r: "persist_reclaims th a"
  obtain fid info where a: "a = (fid, info)" by (cases a)
  show ?thesis
    using r unfolding a
    by (simp add: persist_reclaims_def split: prod.splits option.splits)
qed

lemma persist_loop_cases:
  assumes "persist_reclaims th a"
  obtains (stop) e d where "persist_loop art th (a # items) w = (Some e, w\<lparr>disk := d\<rparr>)"
  | (go) d where
      "write_artifact (art (incomplete_path (fst a))) (incomplete_path (fst a))
         (sort_key e_start (chunks (snd a))) (disk w) = (None, d)"
      "persist_loop art th (a # items) w =
         persist_loop art th items
           \<lparr>upload_tracker = AList.delete (fst a) (upload_tracker w),
            disk = remove_files (map e_path (chunks (snd a))) d\<rparr>"
proof -
  obtain r d where rd: "write_artifact (art (incomplete_path (fst a))) (incomplete_path (fst a))
             (sort_key e_start (chunks (snd a))) (disk w) = (r, d)"
    by (cases "write_artifact (art (incomplete_path (fst a))) (incomplete_path (fst a))
             (sort_key e_start (chunks (snd a))) (disk w)")
  show thesis
  proof (cases r)
    case None
    have "persist_loop art th (a # items) w =
         persist_loop art th items
           \<lparr>upload_tracker = AList.delete (fst a) (upload_tracker w),
            disk = remove_files (map e_path (chunks (snd a))) d\<rparr>"
      by (simp only: persist_loop_reclaim [OF assms] rd None prod.case option.case)
    with rd None show thesis by (intro go [of d]) simp_all
  next
    case (Some e)
    have "persist_loop art th (a # items) w = (Some e, w\<lparr>disk := d\<rparr>)"
      by (simp only: persist_loop_reclaim [OF assms] rd Some prod.case option.case)
    then show thesis by (rule stop)
  qed
qed

lemma persist_loop_tracker_subset:
  "set (upload_tracker (snd (persist_loop art th items w))) \<subseteq> set (upload_tracker w)"
proof (induction items arbitrary: w)
  case Nil
  show ?case by simp
next
  case (Cons a items)
  show ?case
  proof (cases "persist_reclaims th a")
    case False
    then show ?thesis
      using Cons.IH [of w] by (simp add: persist_loop_skip)
  next
    case True
    then show ?thesis
    proof (cases rule: persist_loop_cases [where items = items and w = w and art = art])
      case (stop e d)
      then show ?thesis by simp
    next
      case (go d)
      let ?w = "\<lparr>upload_tracker = AList.delete (fst a) (upload_tracker w),
                 disk = remove_files (map e_path (chunks (snd a))) d\<rparr>"
      have "set (upload_tracker (snd (persist_loop art th items ?w))) \<subseteq> set (upload_tracker ?w)"
        by (rule Cons.IH)
      also have "\<dots> \<subseteq> set (upload_tracker w)"
        by (simp add: delete_as_filter)
      finally show ?thesis
        unfolding go(2) .
    qed
  qed
qed

lemma persist_loop_distinct:
  "distinct (map fst (upload_tracker w)) \<Longrightarrow>
   distinct (map fst (upload_tracker (snd (persist_loop art th items w))))"
proof (induction items arbitrary: w)
  case Nil
  then show ?case by simp
next
  case (Cons a items)
  show ?case
  proof (cases "persist_reclaims th a")
    case False
    then show ?thesis
      using Cons.IH [OF Cons.prems] by (simp add: persist_loop_skip)
  next
    case True
    then show ?thesis
    proof (cases rule: persist_loop_cases [where items = items and w = w and art = art])
      case (stop e d)
      then show ?thesis using Cons.prems by simp
    next
      case (go d)
      let ?w = "\<lparr>upload_tracker = AList.delete (fst a) (upload_tracker w),
                 disk = remove_files (map e_path (chunks (snd a))) d\<rparr>"
      have "distinct (map fst (upload_tracker ?w))"
        using Cons.prems by (simp add: distinct_delete)
      then show ?thesis
        unfolding go(2) by (rule Cons.IH)
    qed
  qed
qed

lemma persist_loop_keeps:
  "k \<notin> fst ` set (filter (persist_reclaims th) items) \<Longrightarrow>
   map_of (upload_tracker (snd (persist_loop art th items w))) k = map_of (upload_tracker w) k"
proof (induction items arbitrary: w)
  case Nil
  then show ?case by simp
next
  case (Cons a items)
  show ?case
  proof (cases "persist_reclaims th a")
    case False
    with Cons.prems have "k \<notin> fst ` set (filter (persist_reclaims th) items)" by simp
    then show ?thesis
      using False by (simp add: persist_loop_skip Cons.IH)
  next
    case True
    with Cons.prems have k: "k \<noteq> fst a"
      and rest: "k \<notin> fst ` set (filter (persist_reclaims th) items)" by simp_all
    from True show ?thesis
    proof (cases rule: persist_loop_cases [where items = items and w = w and art = art])
      case (stop e d)
      then show ?thesis by simp
    next
      case (go d)
      show ?thesis
        unfolding go(2) using k by (simp add: Cons.IH [OF rest])
    qed
  qed
qed

lemma persist_loop_removed:
  "fst (persist_loop art th items w) = None \<Longrightarrow>
   k \<in> fst ` set (filter (persist_reclaims th) items) \<Longrightarrow>
   map_of (upload_tracker (snd (persist_loop art th items w))) k = None"
proof (induction items arbitrary: w)
  case Nil
  then show ?case by simp
next
  case (Cons a items)
  show ?case
  proof (cases "persist_reclaims th a")
    case False
    with Cons.prems have "k \<in> fst ` set (filter (persist_reclaims th) items)"
      and "fst (persist_loop art th items w) = None"
      by (simp_all add: persist_loop_skip)
    then show ?thesis
      using False Cons.IH [of w] by (simp add: persist_loop_skip)
  next
    case True
    from True show ?thesis
    proof (cases rule: persist_loop_cases [where items = items and w = w and art = art])
      case (stop e d)
      with Cons.prems(1) show ?thesis by simp
    next
      case (go d)
      let ?w = "\<lparr>upload_tracker = AList.delete (fst a) (upload_tracker w),
                 disk = remove_files (map e_path (chunks (snd a))) d\<rparr>"
      have fin: "fst (persist_loop art th items ?w) = None"
        using Cons.prems(1) unfolding go(2) .
      show ?thesis
      proof (cases "k \<in> fst ` set (filter (persist_reclaims th) items)")
        case True
        then show ?thesis
          unfolding go(2) using fin by (rule Cons.IH [rotated])
      next
        case False
        with Cons.prems(2) \<open>persist_reclaims th a\<close> have "k = fst a" by simp
        have "map_of (upload_tracker (snd (persist_loop art th items ?w))) k = map_of (upload_tracker ?w) k"
          using False by (rule persist_loop_keeps)
        also have "\<dots> = None"
          unfolding \<open>k = fst a\<close> by (simp add: delete_conv')
        finally show ?thesis
          unfolding go(2) .
      qed
    qed
  qed
qed

lemma persist_loop_append:
  "persist_loop art th (xs @ ys) w =
     (case persist_loop art th xs w of
        (Some e, w') \<Rightarrow> (Some e, w')
      | (None, w') \<Rightarrow> persist_loop art th ys w')"
proof (induction xs arbitrary: w)
  case Nil
  then show ?case by simp
next
  case (Cons a xs)
  show ?case
  proof (cases "persist_reclaims th a")
    case False
    then show ?thesis
      using Cons.IH [of w] by (simp add: persist_loop_skip)
  next
    case True
    show ?thesis
      by (simp add: persist_loop_reclaim [OF True] Cons.IH split: prod.splits option.splits)
  qed
qed


section \<open>The registry invariant holds in every reachable state\<close>

lemma set_update_cases:
  "item \<in> set (AList.update k v t) \<Longrightarrow> item = (k, v) \<or> item \<in> set t"
  by (induction t) (auto split: if_splits)

lemma registry_inv_update:
  assumes inv: "registry_inv w"
    and t: "upload_tracker w' = AList.update k v (upload_tracker w)"
    and v: "\<forall>c\<in>set (chunks v). e_path c = chunk_path k (e_start c) (e_end c)"
  shows "registry_inv w'"
proof -
  from inv have d: "distinct (map fst (upload_tracker w))"
    and ok: "\<And>item c. item \<in> set (upload_tracker w) \<Longrightarrow> c \<in> set (chunks (snd item)) \<Longrightarrow>
                e_path c = chunk_path (fst item) (e_start c) (e_end c)"
    by (auto simp: registry_inv_def list_all_iff)
  have "distinct (map fst (upload_tracker w'))"
    unfolding t using d by (rule distinct_update)
  moreover have "e_path c = chunk_path (fst item) (e_start c) (e_end c)"
    if "item \<in> set (upload_tracker w')" and "c \<in> set (chunks (snd item))" for item c
  proof -
    from that(1) have "item = (k, v) \<or> item \<in> set (upload_tracker w)"
      unfolding t by (rule set_update_cases)
    then show ?thesis
    proof
      assume "item = (k, v)"
      with v that(2) show ?thesis by simp
    next
      assume "item \<in> set (upload_tracker w)"
      then show ?thesis using that(2) by (rule ok)
    qed
  qed
  ultimately show ?thesis
    by (simp add: registry_inv_def list_all_iff)
qed

lemma registry_inv_register:
  assumes inv: "registry_inv w"
    and t: "upload_tracker w' = register_chunk c now (upload_tracker w)"
  shows "registry_inv w'"
proof (cases "map_of (upload_tracker w) (file_id c)")
  case None
  show ?thesis
  proof (rule registry_inv_update [OF inv])
    show "upload_tracker w' =
      AList.update (file_id c)
        \<lparr>chunks = [new_entry c now], total_size = chunk_total_size c, last_updated = now,
         status = None\<rparr> (upload_tracker w)"
      by (simp add: t register_chunk_def None)
    show "\<forall>c'\<in>set (chunks \<lparr>chunks = [new_entry c now], total_size = chunk_total_size c,
              last_updated = now, status = None\<rparr>).
            e_path c' = chunk_path (file_id c) (e_start c') (e_end c')"
      by (simp add: new_entry_def)
  qed
next
  case (Some info)
  then have mem: "(file_id c, info) \<in> set (upload_tracker w)" by (rule map_of_SomeD)
  show ?thesis
  proof (rule registry_inv_update [OF inv])
    show "upload_tracker w' =
      AList.update (file_id c)
        (info\<lparr>chunks := chunks info @ [new_entry c now], last_updated := now\<rparr>) (upload_tracker w)"
      by (simp add: t register_chunk_def Some)
    show "\<forall>c'\<in>set (chunks (info\<lparr>chunks := chunks info @ [new_entry c now], last_updated := now\<rparr>)).
            e_path c' = chunk_path (file_id c) (e_start c') (e_end c')"
      using registry_inv_path [OF inv mem] by (auto simp: new_entry_def)
  qed
qed

lemma registry_inv_assemble:
  assumes inv: "registry_inv w"
  shows "registry_inv (snd (assemble_file env fid w))"
  using assemble_file_tracker [of env fid w]
proof
  assume "upload_tracker (snd (assemble_file env fid w)) = upload_tracker w"
  with inv show ?thesis by (simp add: registry_inv_def)
next
  assume "\<exists>info. map_of (upload_tracker w) fid = Some info \<and>
      upload_tracker (snd (assemble_file env fid w)) =
        AList.update fid (info\<lparr>status := Some ''complete''\<rparr>) (upload_tracker w)"
  then obtain info where look: "map_of (upload_tracker w) fid = Some info"
    and t: "upload_tracker (snd (assemble_file env fid w)) =
        AList.update fid (info\<lparr>status := Some ''complete''\<rparr>) (upload_tracker w)"
    by blast
  from look have mem: "(fid, info) \<in> set (upload_tracker w)" by (rule map_of_SomeD)
  show ?thesis
  proof (rule registry_inv_update [OF inv t])
    show "\<forall>c\<in>set (chunks (info\<lparr>status := Some ''complete''\<rparr>)).
            e_path c = chunk_path fid (e_start c) (e_end c)"
      using registry_inv_path [OF inv mem] by simp
  qed
qed

lemma registry_inv_save_chunk:
  assumes inv: "registry_inv w"
  shows "registry_inv (snd (save_chunk env wo now c w))"
proof (cases "wo = Written")
  case True
  let ?w' = "\<lparr>upload_tracker = register_chunk c now (upload_tracker w),
             disk = (disk w)(chunk_path (file_id c) (start_byte c) (end_byte c) \<mapsto> data c)\<rparr>"
  have reg: "registry_inv ?w'"
    using inv by (rule registry_inv_register) simp
  from save_chunk_Written_world [of env now c w] show ?thesis
    unfolding True
  proof
    assume "snd (save_chunk env Written now c w) = ?w'"
    with reg show "registry_inv (snd (save_chunk env Written now c w))" by simp
  next
    assume "snd (save_chunk env Written now c w) = snd (assemble_file env (file_id c) ?w')"
    with registry_inv_assemble [OF reg, of env "file_id c"]
    show "registry_inv (snd (save_chunk env Written now c w))" by simp
  qed
next
  case False
  then have "upload_tracker (snd (save_chunk env wo now c w)) = upload_tracker w"
    using save_chunk_failed_world [of wo env now c w] by simp
  with inv show ?thesis by (simp add: registry_inv_def)
qed

lemma registry_inv_empty:
  "registry_inv empty_world"
  by (simp add: registry_inv_def empty_world_def)

lemma registry_inv_ingest:
  "registry_inv w \<Longrightarrow> registry_inv (ingest env cs w)"
proof (induction cs arbitrary: w)
  case Nil
  then show ?case by simp
next
  case (Cons a cs)
  obtain t c where a: "a = (t, c)" by (cases a)
  from Cons.prems have "registry_inv (snd (save_chunk env Written t c w))"
    by (rule registry_inv_save_chunk)
  then show ?case
    unfolding a by (simp add: Cons.IH)
qed


section \<open>Claims about the sweeps\<close>

lemma cleanup_survivors:
  assumes "item \<in> set (upload_tracker (cleanup_stale_chunks env now w))"
  shows "item \<in> set (upload_tracker w) \<and> \<not> cleanup_reclaims (threshold_at env now) item"
proof -
  let ?th = "threshold_at env now"
  from assms have mem: "item \<in> set (upload_tracker w)"
    and key: "fst item \<notin> fst ` set (filter (cleanup_reclaims ?th) (upload_tracker w))"
    by (simp_all add: cleanup_stale_chunks_def cleanup_loop_tracker)
  have "\<not> cleanup_reclaims ?th item"
  proof
    assume "cleanup_reclaims ?th item"
    with mem have "item \<in> set (filter (cleanup_reclaims ?th) (upload_tracker w))" by simp
    then have "fst item \<in> fst ` set (filter (cleanup_reclaims ?th) (upload_tracker w))"
      by (rule imageI)
    with key show False by contradiction
  qed
  with mem show ?thesis by simp
qed

lemma cleanup_creates_no_file:
  "disk (cleanup_stale_chunks env now w) p = Some bs \<Longrightarrow> disk w p = Some bs"
  by (simp add: cleanup_stale_chunks_def cleanup_loop_disk split: if_splits)

lemma trigger_cleanup_stale_world:
  "disk (snd (trigger_cleanup calm 5000 5000 stale_world)) (incomplete_path ''f'') = Some [1, 2]"
  by (simp add: trigger_cleanup_def persist_incomplete_files_def cleanup_stale_chunks_def
        recent_activity_def stale_world_def eval_defs)

text \<open>
  C10, as the code has it. In the periodic sweep \<^verbatim>\<open>cleanup_stale_chunks\<close> runs first and
  deletes every session that is not complete and is stale by the threshold it computes from
  its reading of the clock. \<^verbatim>\<open>persist_incomplete_files\<close> reads the clock again and
  computes its own threshold. When no chunk has a time stamp between the two thresholds
  (always so when the two readings agree), the persist pass does nothing: the sweep ends in
  the state that cleanup left, and every file on disk after it was on disk before it with
  the same content, so no partial artifact was written. This holds in every environment.
  The on-demand endpoint runs persist first and does write one for an abandoned session.
\<close>

theorem C10_periodic_sweep_persists_nothing:
  assumes "\<forall>item\<in>set (upload_tracker w). \<forall>c\<in>set (chunks (snd item)).
             \<not> (threshold_at env now1 < e_timestamp c \<and> e_timestamp c \<le> threshold_at env now2)"
  shows "periodic_cleanup env now1 now2 w = (None, cleanup_stale_chunks env now1 w) \<and>
         (\<forall>p bs. disk (snd (periodic_cleanup env now1 now2 w)) p = Some bs \<longrightarrow> disk w p = Some bs) \<and>
         disk (snd (trigger_cleanup calm 5000 5000 stale_world)) (incomplete_path ''f'') = Some [1, 2]"
proof -
  let ?w1 = "cleanup_stale_chunks env now1 w"
  have none: "\<not> persist_reclaims (threshold_at env now2) item"
    if "item \<in> set (upload_tracker ?w1)" for item
  proof
    assume p: "persist_reclaims (threshold_at env now2) item"
    from that have mem: "item \<in> set (upload_tracker w)"
      and keep: "\<not> cleanup_reclaims (threshold_at env now1) item"
      using cleanup_survivors by blast+
    from p have open_session: "status (snd item) \<noteq> Some ''complete''"
      and old: "\<forall>c\<in>set (chunks (snd item)). e_timestamp c \<le> threshold_at env now2"
      by (auto simp: persist_reclaims_def recent_activity_iff)
    from keep open_session obtain c where c: "c \<in> set (chunks (snd item))"
      and young: "threshold_at env now1 < e_timestamp c"
      by (auto simp: cleanup_reclaims_def stale_iff)
    from old c have "e_timestamp c \<le> threshold_at env now2" by blast
    with assms mem c young show False by blast
  qed
  have run: "periodic_cleanup env now1 now2 w = (None, ?w1)"
    unfolding periodic_cleanup_def persist_incomplete_files_def
    by (rule persist_loop_noop) (use none in blast)
  show ?thesis
    unfolding run using cleanup_creates_no_file [of env now1 w]
    by (simp add: trigger_cleanup_stale_world)
qed

theorem C10_periodic_sweep_persists_nothing_witness:
  "periodic_cleanup calm 5000 5000 stale_world = (None, cleanup_stale_chunks calm 5000 stale_world) \<and>
   disk (snd (periodic_cleanup calm 5000 5000 stale_world)) (incomplete_path ''f'') = None \<and>
   disk (snd (trigger_cleanup calm 5000 5000 stale_world)) (incomplete_path ''f'') = Some [1, 2]"
proof -
  have t: "upload_tracker stale_world =
    [(''f'', \<lparr>chunks = [\<lparr>e_start = 0, e_end = 1, e_path = ''chunks/f_0_1.chunk'',
                          e_checksum = 3, e_timestamp = 10\<rparr>],
              total_size = None, last_updated = 10, status = None\<rparr>)]"
    by (simp add: stale_world_def eval_defs)
  have d: "disk stale_world (incomplete_path ''f'') = None"
    by (simp add: stale_world_def eval_defs)
  have gap: "\<forall>item\<in>set (upload_tracker stale_world). \<forall>c\<in>set (chunks (snd item)).
             \<not> (threshold_at calm 5000 < e_timestamp c \<and> e_timestamp c \<le> threshold_at calm 5000)"
    by (simp add: t)
  from C10_periodic_sweep_persists_nothing [OF gap]
  have run: "periodic_cleanup calm 5000 5000 stale_world = (None, cleanup_stale_chunks calm 5000 stale_world)"
    and same: "\<And>p bs. disk (snd (periodic_cleanup calm 5000 5000 stale_world)) p = Some bs \<Longrightarrow>
                 disk stale_world p = Some bs"
    and demand: "disk (snd (trigger_cleanup calm 5000 5000 stale_world)) (incomplete_path ''f'') = Some [1, 2]"
    by blast+
  have "disk (snd (periodic_cleanup calm 5000 5000 stale_world)) (incomplete_path ''f'') = None"
    using same [of "incomplete_path ''f''"] d
    by (cases "disk (snd (periodic_cleanup calm 5000 5000 stale_world)) (incomplete_path ''f'')") auto
  with run demand show ?thesis by simp
qed

text \<open>
  C10 as stated fails: a session whose only chunk has time stamp 10 is not yet stale when
  cleanup reads the clock at 3609, and is stale when persist reads it at 3610; the periodic
  sweep then writes its partial artifact.
\<close>

theorem C10_counterexample:
  "disk stale_world (incomplete_path ''f'') = None \<and>
   disk (snd (periodic_cleanup calm 3609 3610 stale_world)) (incomplete_path ''f'') = Some [1, 2]"
  by (simp add: periodic_cleanup_def persist_incomplete_files_def cleanup_stale_chunks_def
        recent_activity_def stale_world_def eval_defs)


lemma registry_inv_entry:
  assumes "registry_inv w" and "map_of (upload_tracker w) fid = Some info"
    and "item \<in> set (upload_tracker w)" and "fst item = fid"
  shows "item = (fid, info)"
proof -
  obtain k i where item: "item = (k, i)" by (cases item)
  from assms(1) have d: "distinct (map fst (upload_tracker w))"
    by (simp add: registry_inv_def)
  from assms(3,4) have "(fid, i) \<in> set (upload_tracker w)" by (simp add: item)
  with d have "map_of (upload_tracker w) fid = Some i" by simp
  with assms(2,4) show ?thesis by (simp add: item)
qed

lemma registry_inv_smaller:
  assumes "registry_inv w" and "distinct (map fst (upload_tracker w'))"
    and "set (upload_tracker w') \<subseteq> set (upload_tracker w)"
  shows "registry_inv w'"
  using assms by (auto simp: registry_inv_def list_all_iff)

lemma map_of_filter_keys:
  "k \<notin> R \<Longrightarrow> map_of (filter (\<lambda>item. fst item \<notin> R) t) k = map_of t k"
  by (induction t) auto

lemma registry_inv_cleanup:
  assumes "registry_inv w"
  shows "registry_inv (cleanup_stale_chunks env now w)"
proof (rule registry_inv_smaller [OF assms])
  from assms have "distinct (map fst (upload_tracker w))" by (simp add: registry_inv_def)
  then show "distinct (map fst (upload_tracker (cleanup_stale_chunks env now w)))"
    by (simp add: cleanup_stale_chunks_def cleanup_loop_tracker distinct_map_filter)
  show "set (upload_tracker (cleanup_stale_chunks env now w)) \<subseteq> set (upload_tracker w)"
    by (simp add: cleanup_stale_chunks_def cleanup_loop_tracker)
qed

lemma registry_inv_persist:
  assumes "registry_inv w"
  shows "registry_inv (snd (persist_incomplete_files env now w))"
proof (rule registry_inv_smaller [OF assms])
  from assms have "distinct (map fst (upload_tracker w))" by (simp add: registry_inv_def)
  then show "distinct (map fst (upload_tracker (snd (persist_incomplete_files env now w))))"
    unfolding persist_incomplete_files_def by (rule persist_loop_distinct)
  show "set (upload_tracker (snd (persist_incomplete_files env now w))) \<subseteq> set (upload_tracker w)"
    unfolding persist_incomplete_files_def by (rule persist_loop_tracker_subset)
qed

text \<open>The files of a session: its fragments and its partial artifact.\<close>

lemma session_file_disjoint:
  assumes inv: "registry_inv w" and look: "map_of (upload_tracker w) fid = Some info"
    and p: "p = incomplete_path fid \<or> p \<in> e_path ` set (chunks info)"
    and item: "item \<in> set (upload_tracker w)"
    and q: "p = incomplete_path (fst item) \<or> p \<in> e_path ` set (chunks (snd item))"
  shows "item = (fid, info)"
proof -
  from look have mem: "(fid, info) \<in> set (upload_tracker w)" by (rule map_of_SomeD)
  have own: "p = incomplete_path fid \<or> (\<exists>s e. p = chunk_path fid s e)"
    using p registry_inv_path [OF inv mem] by auto
  have other: "p = incomplete_path (fst item) \<or> (\<exists>s e. p = chunk_path (fst item) s e)"
    using q registry_inv_path [OF inv item] by auto
  have "fst item = fid"
    using own other
    by (metis chunk_path_inj incomplete_path_inj chunk_path_not_incomplete_path)
  with inv look item show ?thesis by (rule registry_inv_entry)
qed

lemma cleanup_pass_keeps:
  assumes inv: "registry_inv w" and look: "map_of (upload_tracker w) fid = Some info"
    and c: "c \<in> set (chunks info)" and young: "threshold_at env now < e_timestamp c"
  shows "map_of (upload_tracker (cleanup_stale_chunks env now w)) fid = Some info"
    and "p = incomplete_path fid \<or> p \<in> e_path ` set (chunks info) \<Longrightarrow>
         disk (cleanup_stale_chunks env now w) p = disk w p"
proof -
  let ?th = "threshold_at env now"
  have "\<not> stale ?th (chunks info)"
  proof
    assume "stale ?th (chunks info)"
    with c have "e_timestamp c \<le> ?th" by (simp add: stale_iff)
    with young show False by simp
  qed
  then have keep: "\<not> cleanup_reclaims ?th (fid, info)"
    by (simp add: cleanup_reclaims_def)
  have "fid \<notin> fst ` set (filter (cleanup_reclaims ?th) (upload_tracker w))"
  proof
    assume "fid \<in> fst ` set (filter (cleanup_reclaims ?th) (upload_tracker w))"
    then obtain item where i: "item \<in> set (filter (cleanup_reclaims ?th) (upload_tracker w))"
      and f: "fid = fst item" by (rule imageE)
    from i have mem: "item \<in> set (upload_tracker w)" and r: "cleanup_reclaims ?th item"
      by simp_all
    from f have "fst item = fid" by simp
    with inv look mem have "item = (fid, info)" by (rule registry_inv_entry)
    with r keep show False by simp
  qed
  then show "map_of (upload_tracker (cleanup_stale_chunks env now w)) fid = Some info"
    by (simp add: cleanup_stale_chunks_def cleanup_loop_tracker map_of_filter_keys look)
  show "disk (cleanup_stale_chunks env now w) p = disk w p"
    if p: "p = incomplete_path fid \<or> p \<in> e_path ` set (chunks info)"
  proof -
    have "p \<notin> cleanup_paths ?th (upload_tracker w)"
    proof
      assume "p \<in> cleanup_paths ?th (upload_tracker w)"
      then obtain item where i: "item \<in> set (filter (cleanup_reclaims ?th) (upload_tracker w))"
        and q: "p \<in> e_path ` set (chunks (snd item))"
        unfolding cleanup_paths_def by (rule UN_E)
      from i have item: "item \<in> set (upload_tracker w)" and r: "cleanup_reclaims ?th item"
        by simp_all
      from q have "p = incomplete_path (fst item) \<or> p \<in> e_path ` set (chunks (snd item))" ..
      with inv look p item have "item = (fid, info)" by (rule session_file_disjoint)
      with r keep show False by simp
    qed
    then show ?thesis
      by (simp add: cleanup_stale_chunks_def cleanup_loop_disk)
  qed
qed

lemma persist_pass_keeps:
  assumes inv: "registry_inv w" and look: "map_of (upload_tracker w) fid = Some info"
    and c: "c \<in> set (chunks info)" and young: "threshold_at env now < e_timestamp c"
  shows "map_of (upload_tracker (snd (persist_incomplete_files env now w))) fid = Some info"
    and "p = incomplete_path fid \<or> p \<in> e_path ` set (chunks info) \<Longrightarrow>
         disk (snd (persist_incomplete_files env now w)) p = disk w p"
proof -
  let ?th = "threshold_at env now"
  have "recent_activity ?th (chunks info)"
    unfolding recent_activity_iff using c young by (rule bexI [rotated])
  then have keep: "\<not> persist_reclaims ?th (fid, info)"
    by (simp add: persist_reclaims_def)
  have "fid \<notin> fst ` set (filter (persist_reclaims ?th) (upload_tracker w))"
  proof
    assume "fid \<in> fst ` set (filter (persist_reclaims ?th) (upload_tracker w))"
    then obtain item where i: "item \<in> set (filter (persist_reclaims ?th) (upload_tracker w))"
      and f: "fid = fst item" by (rule imageE)
    from i have mem: "item \<in> set (upload_tracker w)" and r: "persist_reclaims ?th item"
      by simp_all
    from f have "fst item = fid" by simp
    with inv look mem have "item = (fid, info)" by (rule registry_inv_entry)
    with r keep show False by simp
  qed
  then show "map_of (upload_tracker (snd (persist_incomplete_files env now w))) fid = Some info"
    by (simp add: persist_incomplete_files_def persist_loop_keeps look)
  show "disk (snd (persist_incomplete_files env now w)) p = disk w p"
    if p: "p = incomplete_path fid \<or> p \<in> e_path ` set (chunks info)"
  proof -
    have "p \<notin> persist_paths ?th (upload_tracker w)"
    proof
      assume "p \<in> persist_paths ?th (upload_tracker w)"
      then obtain item where i: "item \<in> set (filter (persist_reclaims ?th) (upload_tracker w))"
        and q': "p \<in> insert (incomplete_path (fst item)) (e_path ` set (chunks (snd item)))"
        unfolding persist_paths_def by (rule UN_E)
      from i have item: "item \<in> set (upload_tracker w)" and r: "persist_reclaims ?th item"
        by simp_all
      from q' have q: "p = incomplete_path (fst item) \<or> p \<in> e_path ` set (chunks (snd item))"
        by simp
      from inv look p item q have "item = (fid, info)" by (rule session_file_disjoint)
      with r keep show False by simp
    qed
    then show ?thesis
      unfolding persist_incomplete_files_def by (rule persist_loop_untouched)
  qed
qed


lemma trigger_cleanup_world:
  "snd (trigger_cleanup env now1 now2 w) = snd (persist_incomplete_files env now1 w) \<or>
   snd (trigger_cleanup env now1 now2 w) =
     cleanup_stale_chunks env now2 (snd (persist_incomplete_files env now1 w))"
  by (cases "persist_incomplete_files env now1 w")
     (auto simp: trigger_cleanup_def split: option.splits)

lemma periodic_pass_keeps:
  assumes inv: "registry_inv w" and look: "map_of (upload_tracker w) fid = Some info"
    and c: "c \<in> set (chunks info)"
    and young1: "threshold_at env now1 < e_timestamp c"
    and young2: "threshold_at env now2 < e_timestamp c"
  shows "map_of (upload_tracker (snd (periodic_cleanup env now1 now2 w))) fid = Some info"
    and "p = incomplete_path fid \<or> p \<in> e_path ` set (chunks info) \<Longrightarrow>
         disk (snd (periodic_cleanup env now1 now2 w)) p = disk w p"
proof -
  let ?w1 = "cleanup_stale_chunks env now1 w"
  have inv1: "registry_inv ?w1" using inv by (rule registry_inv_cleanup)
  have look1: "map_of (upload_tracker ?w1) fid = Some info"
    using inv look c young1 by (rule cleanup_pass_keeps(1))
  show "map_of (upload_tracker (snd (periodic_cleanup env now1 now2 w))) fid = Some info"
    unfolding periodic_cleanup_def using inv1 look1 c young2 by (rule persist_pass_keeps(1))
  show "disk (snd (periodic_cleanup env now1 now2 w)) p = disk w p"
    if p: "p = incomplete_path fid \<or> p \<in> e_path ` set (chunks info)"
  proof -
    have "disk (snd (persist_incomplete_files env now2 ?w1)) p = disk ?w1 p"
      using inv1 look1 c young2 p by (rule persist_pass_keeps(2))
    also have "\<dots> = disk w p"
      using inv look c young1 p by (rule cleanup_pass_keeps(2))
    finally show ?thesis
      unfolding periodic_cleanup_def .
  qed
qed

lemma on_demand_pass_keeps:
  assumes inv: "registry_inv w" and look: "map_of (upload_tracker w) fid = Some info"
    and c: "c \<in> set (chunks info)"
    and young1: "threshold_at env now1 < e_timestamp c"
    and young2: "threshold_at env now2 < e_timestamp c"
  shows "map_of (upload_tracker (snd (trigger_cleanup env now1 now2 w))) fid = Some info"
    and "p = incomplete_path fid \<or> p \<in> e_path ` set (chunks info) \<Longrightarrow>
         disk (snd (trigger_cleanup env now1 now2 w)) p = disk w p"
proof -
  let ?w1 = "snd (persist_incomplete_files env now1 w)"
  have inv1: "registry_inv ?w1" using inv by (rule registry_inv_persist)
  have look1: "map_of (upload_tracker ?w1) fid = Some info"
    using inv look c young1 by (rule persist_pass_keeps(1))
  have look2: "map_of (upload_tracker (cleanup_stale_chunks env now2 ?w1)) fid = Some info"
    using inv1 look1 c young2 by (rule cleanup_pass_keeps(1))
  show "map_of (upload_tracker (snd (trigger_cleanup env now1 now2 w))) fid = Some info"
    using trigger_cleanup_world [of env now1 now2 w] look1 look2 by (elim disjE) simp_all
  show "disk (snd (trigger_cleanup env now1 now2 w)) p = disk w p"
    if p: "p = incomplete_path fid \<or> p \<in> e_path ` set (chunks info)"
  proof -
    have d1: "disk ?w1 p = disk w p"
      using inv look c young1 p by (rule persist_pass_keeps(2))
    have "disk (cleanup_stale_chunks env now2 ?w1) p = disk ?w1 p"
      using inv1 look1 c young2 p by (rule cleanup_pass_keeps(2))
    with d1 have d2: "disk (cleanup_stale_chunks env now2 ?w1) p = disk w p" by simp
    show ?thesis
      using trigger_cleanup_world [of env now1 now2 w] d1 d2 by (elim disjE) simp_all
  qed
qed

text \<open>
  What both sweeps do keep: a session with a chunk whose time stamp is above the threshold
  that each of the two passes computes. Its registry record, its fragment files and the
  file at the path of its partial artifact are as before.
\<close>

lemma session_above_thresholds_survives:
  assumes "registry_inv w"
    and "map_of (upload_tracker w) fid = Some info"
    and "c \<in> set (chunks info)"
    and "threshold_at env now1 < e_timestamp c"
    and "threshold_at env now2 < e_timestamp c"
  shows "map_of (upload_tracker (snd (periodic_cleanup env now1 now2 w))) fid = Some info"
    and "\<forall>c'\<in>set (chunks info).
            disk (snd (periodic_cleanup env now1 now2 w)) (e_path c') = disk w (e_path c')"
    and "disk (snd (periodic_cleanup env now1 now2 w)) (incomplete_path fid) =
           disk w (incomplete_path fid)"
    and "map_of (upload_tracker (snd (trigger_cleanup env now1 now2 w))) fid = Some info"
    and "\<forall>c'\<in>set (chunks info).
            disk (snd (trigger_cleanup env now1 now2 w)) (e_path c') = disk w (e_path c')"
    and "disk (snd (trigger_cleanup env now1 now2 w)) (incomplete_path fid) =
           disk w (incomplete_path fid)"
proof -
  show "map_of (upload_tracker (snd (periodic_cleanup env now1 now2 w))) fid = Some info"
    using assms by (rule periodic_pass_keeps(1))
  show "map_of (upload_tracker (snd (trigger_cleanup env now1 now2 w))) fid = Some info"
    using assms by (rule on_demand_pass_keeps(1))
  show "disk (snd (periodic_cleanup env now1 now2 w)) (incomplete_path fid) =
           disk w (incomplete_path fid)"
    using assms by (rule periodic_pass_keeps(2)) simp
  show "disk (snd (trigger_cleanup env now1 now2 w)) (incomplete_path fid) =
           disk w (incomplete_path fid)"
    using assms by (rule on_demand_pass_keeps(2)) simp
  show "\<forall>c'\<in>set (chunks info).
            disk (snd (periodic_cleanup env now1 now2 w)) (e_path c') = disk w (e_path c')"
  proof
    fix c' assume "c' \<in> set (chunks info)"
    then have "e_path c' = incomplete_path fid \<or> e_path c' \<in> e_path ` set (chunks info)"
      by simp
    with assms show "disk (snd (periodic_cleanup env now1 now2 w)) (e_path c') = disk w (e_path c')"
      by (rule periodic_pass_keeps(2))
  qed
  show "\<forall>c'\<in>set (chunks info).
            disk (snd (trigger_cleanup env now1 now2 w)) (e_path c') = disk w (e_path c')"
  proof
    fix c' assume "c' \<in> set (chunks info)"
    then have "e_path c' = incomplete_path fid \<or> e_path c' \<in> e_path ` set (chunks info)"
      by simp
    with assms show "disk (snd (trigger_cleanup env now1 now2 w)) (e_path c') = disk w (e_path c')"
      by (rule on_demand_pass_keeps(2))
  qed
qed

lemma mixed_world_tracker:
  "upload_tracker mixed_world =
    [(''f'', \<lparr>chunks = [\<lparr>e_start = 0, e_end = 1, e_path = ''chunks/f_0_1.chunk'',
                          e_checksum = 3, e_timestamp = 10\<rparr>,
                        \<lparr>e_start = 2, e_end = 3, e_path = ''chunks/f_2_3.chunk'',
                          e_checksum = 7, e_timestamp = 5000\<rparr>],
              total_size = Some 8, last_updated = 5000, status = None\<rparr>),
     (''g'', \<lparr>chunks = [\<lparr>e_start = 0, e_end = 1, e_path = ''chunks/g_0_1.chunk'',
                          e_checksum = 15, e_timestamp = 20\<rparr>],
              total_size = Some 8, last_updated = 20, status = None\<rparr>)]"
  by (simp add: mixed_world_def eval_defs)

lemma mixed_world_inv:
  "registry_inv mixed_world"
  by (simp add: registry_inv_def mixed_world_tracker chunk_path_def path_join_def CHUNK_DIR_def
        str_int_def str_nat.simps digit_char_def)

section \<open>The threshold around a change of the UTC offset\<close>

text \<open>
  In a zone whose offset does not change the threshold is one hour before the clock
  reading. In the hour after the clocks went forward it is the clock reading itself, and in
  the two hours after they went back it is two hours before the clock reading.
\<close>

lemma naive_threshold_fixed_offset:
  "naive_threshold (\<lambda>u. off) now = now - STALE_THRESHOLD"
  by (simp add: naive_threshold_def naive_timestamp_def local_seconds_def Let_def)

lemma naive_threshold_after_spring_forward:
  assumes "0 \<le> x" and "x < 3600"
  shows "naive_threshold (spring_forward T) (T + x) = T + x"
  using assms
  by (simp add: naive_threshold_def naive_timestamp_def local_seconds_def spring_forward_def
        STALE_THRESHOLD_def Let_def)

lemma naive_threshold_after_fall_back:
  assumes "0 \<le> x" and "x < 7200"
  shows "naive_threshold (fall_back T) (T + x) = T + x - 7200"
  using assms
  by (simp add: naive_threshold_def naive_timestamp_def local_seconds_def fall_back_def
        STALE_THRESHOLD_def Let_def)

lemma threshold_at_calm:
  "threshold_at calm now = naive_threshold (\<lambda>u. off) now"
  by (simp add: calm_def naive_threshold_fixed_offset)

lemma threshold_at_spring_hour:
  assumes "0 \<le> x" and "x < 3600"
  shows "threshold_at spring_hour (T + x) = naive_threshold (spring_forward T) (T + x)"
  using assms by (simp add: spring_hour_def naive_threshold_after_spring_forward)

text \<open>
  C6 at a failing input. The only chunk of the session arrived at time 4998. The sweep
  runs two seconds later, at 5000, within the hour after the clocks of the local zone went
  forward, so the threshold that both passes compute is 5000: the chunk is not above it,
  although it is well within the hour before the clock reading. The periodic sweep deletes
  the session record and its fragment; the on-demand sweep persists a partial artifact and
  deletes the record.
\<close>

theorem C6_two_second_old_session_reclaimed:
  "map (\<lambda>c. (e_path c, e_timestamp c)) (session_chunks ''f'' fresh_world) =
     [(''chunks/f_0_1.chunk'', 4998)] \<and>
   disk fresh_world ''chunks/f_0_1.chunk'' = Some [1, 2] \<and>
   5000 - STALE_THRESHOLD < 4998 \<and>
   threshold_at spring_hour 5000 = 5000 \<and>
   map_of (upload_tracker (snd (periodic_cleanup spring_hour 5000 5000 fresh_world))) ''f'' = None \<and>
   disk (snd (periodic_cleanup spring_hour 5000 5000 fresh_world)) ''chunks/f_0_1.chunk'' = None \<and>
   map_of (upload_tracker (snd (trigger_cleanup spring_hour 5000 5000 fresh_world))) ''f'' = None \<and>
   disk (snd (trigger_cleanup spring_hour 5000 5000 fresh_world)) ''chunks/f_0_1.chunk'' = None \<and>
   disk (snd (trigger_cleanup spring_hour 5000 5000 fresh_world)) (incomplete_path ''f'') =
     Some [1, 2]"
  by (simp add: periodic_cleanup_def trigger_cleanup_def persist_incomplete_files_def
        cleanup_stale_chunks_def recent_activity_def spring_hour_def fresh_world_def eval_defs)


lemma session_files_outside:
  assumes inv: "registry_inv w" and look: "map_of (upload_tracker w) fid = Some info"
    and p: "p = incomplete_path fid \<or> p \<in> e_path ` set (chunks info)"
    and sub: "set items \<subseteq> set (upload_tracker w)"
    and nokey: "fid \<notin> fst ` set items"
  shows "p \<notin> persist_paths th items"
proof
  assume "p \<in> persist_paths th items"
  then obtain item where i: "item \<in> set (filter (persist_reclaims th) items)"
    and q': "p \<in> insert (incomplete_path (fst item)) (e_path ` set (chunks (snd item)))"
    unfolding persist_paths_def by (rule UN_E)
  from i have mem: "item \<in> set items" by simp
  with sub have item: "item \<in> set (upload_tracker w)" by blast
  from q' have q: "p = incomplete_path (fst item) \<or> p \<in> e_path ` set (chunks (snd item))"
    by simp
  from inv look p item q have "item = (fid, info)" by (rule session_file_disjoint)
  with mem have "fid \<in> fst ` set items" by (metis fst_conv imageI)
  with nokey show False by contradiction
qed

lemma incomplete_path_not_a_fragment:
  assumes inv: "registry_inv w" and item: "item \<in> set (upload_tracker w)"
  shows "incomplete_path f \<notin> e_path ` set (chunks (snd item))"
proof
  assume "incomplete_path f \<in> e_path ` set (chunks (snd item))"
  then obtain c where c: "c \<in> set (chunks (snd item))" and e: "incomplete_path f = e_path c"
    by (rule imageE)
  from registry_inv_path [OF inv item c] e
  have "chunk_path (fst item) (e_start c) (e_end c) = incomplete_path f" by simp
  then show False by (simp add: chunk_path_not_incomplete_path)
qed

lemma persist_pass_reclaims:
  assumes inv: "registry_inv w" and look: "map_of (upload_tracker w) fid = Some info"
    and unfinished: "status info \<noteq> Some ''complete''"
    and nonempty: "chunks info \<noteq> []"
    and old: "\<forall>c\<in>set (chunks info). e_timestamp c \<le> threshold_at env now"
    and present: "\<forall>c\<in>set (chunks info). disk w (e_path c) \<noteq> None"
    and fin: "fst (persist_incomplete_files env now w) = None"
  shows "map_of (upload_tracker (snd (persist_incomplete_files env now w))) fid = None"
    and "disk (snd (persist_incomplete_files env now w)) (incomplete_path fid) =
           Some (concat (map (\<lambda>c. the (disk w (e_path c))) (sort_key e_start (chunks info))))"
    and "\<forall>c\<in>set (chunks info). disk (snd (persist_incomplete_files env now w)) (e_path c) = None"
proof -
  let ?th = "threshold_at env now"
  let ?inc = "incomplete_path fid"
  let ?cs = "sort_key e_start (chunks info)"
  let ?content = "concat (map (\<lambda>c. the (disk w (e_path c))) ?cs)"
  from look have mem: "(fid, info) \<in> set (upload_tracker w)" by (rule map_of_SomeD)
  then obtain pre post where split: "upload_tracker w = pre @ (fid, info) # post"
    by (meson split_list)
  from inv have "distinct (map fst (upload_tracker w))" by (simp add: registry_inv_def)
  then have nopre: "fid \<notin> fst ` set pre" and nopost: "fid \<notin> fst ` set post"
    unfolding split by auto
  have subpre: "set pre \<subseteq> set (upload_tracker w)" and subpost: "set post \<subseteq> set (upload_tracker w)"
    unfolding split by auto
  have reclaim: "persist_reclaims ?th (fid, info)"
    using unfinished nonempty old
    by (auto simp: persist_reclaims_def recent_activity_iff)
  \<comment> \<open>the entries before the session\<close>
  let ?wa = "snd (persist_loop (artifact_write env) ?th pre w)"
  have whole: "persist_loop (artifact_write env) ?th (upload_tracker w) w =
     (case persist_loop (artifact_write env) ?th pre w of
        (Some e, w') \<Rightarrow> (Some e, w')
      | (None, w') \<Rightarrow> persist_loop (artifact_write env) ?th ((fid, info) # post) w')"
    unfolding split by (rule persist_loop_append)
  from fin have fin': "fst (persist_loop (artifact_write env) ?th (upload_tracker w) w) = None"
    by (simp add: persist_incomplete_files_def)
  have pre_ok: "persist_loop (artifact_write env) ?th pre w = (None, ?wa)"
    using fin' unfolding whole
    by (cases "persist_loop (artifact_write env) ?th pre w") (auto split: option.splits)
  have rest: "persist_loop (artifact_write env) ?th (upload_tracker w) w = persist_loop (artifact_write env) ?th ((fid, info) # post) ?wa"
    unfolding whole by (subst pre_ok) simp
  have own_a: "disk ?wa p = disk w p"
    if "p = incomplete_path fid \<or> p \<in> e_path ` set (chunks info)" for p
  proof (rule persist_loop_untouched)
    show "p \<notin> persist_paths ?th pre"
      using inv look that subpre nopre by (rule session_files_outside)
  qed
  \<comment> \<open>the session itself\<close>
  let ?art = "artifact_write env"
  have apart: "?inc \<notin> e_path ` set (chunks info)"
    using incomplete_path_not_a_fragment [OF inv mem] by simp
  have frag: "disk ?wa (e_path c) = disk w (e_path c)" if "c \<in> set (chunks info)" for c
    using that by (intro own_a) simp
  have written: "?art ?inc = Written"
  proof (rule ccontr)
    assume "?art ?inc \<noteq> Written"
    then have "fst (write_artifact (?art ?inc) ?inc ?cs (disk ?wa)) \<noteq> None"
      by (rule write_artifact_failed)
    then obtain e d where "write_artifact (?art ?inc) ?inc ?cs (disk ?wa) = (Some e, d)"
      by (cases "write_artifact (?art ?inc) ?inc ?cs (disk ?wa)") auto
    then have "persist_loop ?art ?th ((fid, info) # post) ?wa = (Some e, ?wa\<lparr>disk := d\<rparr>)"
      using persist_loop_reclaim [OF reclaim, of ?art post ?wa]
      by (simp only: fst_conv snd_conv prod.case option.case)
    with rest fin' show False by simp
  qed
  have c1: "write_artifact Written ?inc ?cs (disk ?wa) =
          (None, (disk ?wa)(?inc \<mapsto> concat (map (\<lambda>c. the (disk ?wa (e_path c))) ?cs)))"
  proof (rule write_artifact_all_present)
    show "?inc \<notin> e_path ` set ?cs" using apart by simp
    show "\<forall>c\<in>set ?cs. disk ?wa (e_path c) \<noteq> None" using present frag by simp
  qed
  have meq: "map (\<lambda>c. the (disk ?wa (e_path c))) ?cs = map (\<lambda>c. the (disk w (e_path c))) ?cs"
    using frag by simp
  have c2: "write_artifact (?art ?inc) ?inc ?cs (disk ?wa) =
          (None, (disk ?wa)(?inc \<mapsto> ?content))"
    using c1 by (simp only: meq written)
  let ?wb = "\<lparr>upload_tracker = AList.delete fid (upload_tracker ?wa),
             disk = remove_files (map e_path (chunks info)) ((disk ?wa)(?inc \<mapsto> ?content))\<rparr>"
  have step: "persist_loop ?art ?th ((fid, info) # post) ?wa = persist_loop ?art ?th post ?wb"
    using persist_loop_reclaim [OF reclaim, of ?art post ?wa]
    by (simp only: fst_conv snd_conv c2 prod.case option.case)
  have b_inc: "disk ?wb ?inc = Some ?content"
    using apart by (simp add: remove_files_apply)
  have b_frag: "disk ?wb (e_path c) = None" if "c \<in> set (chunks info)" for c
    using that by (simp add: remove_files_apply)
  have b_key: "map_of (upload_tracker ?wb) fid = None"
    by (simp add: delete_conv')
  \<comment> \<open>the entries after the session\<close>
  have final: "persist_incomplete_files env now w = persist_loop (artifact_write env) ?th post ?wb"
    unfolding persist_incomplete_files_def rest step ..
  have own_b: "disk (snd (persist_loop (artifact_write env) ?th post ?wb)) p = disk ?wb p"
    if "p = incomplete_path fid \<or> p \<in> e_path ` set (chunks info)" for p
  proof (rule persist_loop_untouched)
    show "p \<notin> persist_paths ?th post"
      using inv look that subpost nopost by (rule session_files_outside)
  qed
  have "fid \<notin> fst ` set (filter (persist_reclaims ?th) post)"
    using nopost by auto
  then have "map_of (upload_tracker (snd (persist_loop (artifact_write env) ?th post ?wb))) fid =
             map_of (upload_tracker ?wb) fid"
    by (rule persist_loop_keeps)
  with b_key show "map_of (upload_tracker (snd (persist_incomplete_files env now w))) fid = None"
    unfolding final by simp
  show "disk (snd (persist_incomplete_files env now w)) ?inc = Some ?content"
    unfolding final using own_b [of ?inc] b_inc by simp
  show "\<forall>c\<in>set (chunks info). disk (snd (persist_incomplete_files env now w)) (e_path c) = None"
  proof
    fix c assume c: "c \<in> set (chunks info)"
    then have "disk (snd (persist_loop (artifact_write env) ?th post ?wb)) (e_path c) = disk ?wb (e_path c)"
      by (intro own_b) simp
    with b_frag [OF c] show "disk (snd (persist_incomplete_files env now w)) (e_path c) = None"
      unfolding final by simp
  qed
qed


lemma map_of_filter_absent:
  "map_of t k = None \<Longrightarrow> map_of (filter P t) k = None"
  by (induction t) (auto split: if_splits)

lemma trigger_cleanup_finished:
  assumes "fst (trigger_cleanup env now1 now2 w) = None"
  shows "fst (persist_incomplete_files env now1 w) = None"
    and "snd (trigger_cleanup env now1 now2 w) =
           cleanup_stale_chunks env now2 (snd (persist_incomplete_files env now1 w))"
  using assms
  by (cases "persist_incomplete_files env now1 w"; auto simp: trigger_cleanup_def split: option.splits)+

lemma cleanup_keeps_artifact:
  assumes "registry_inv w"
  shows "disk (cleanup_stale_chunks env now w) (incomplete_path f) = disk w (incomplete_path f)"
proof -
  have "incomplete_path f \<notin> cleanup_paths (threshold_at env now) (upload_tracker w)"
  proof
    assume "incomplete_path f \<in> cleanup_paths (threshold_at env now) (upload_tracker w)"
    then obtain item
      where i: "item \<in> set (filter (cleanup_reclaims (threshold_at env now)) (upload_tracker w))"
        and q: "incomplete_path f \<in> e_path ` set (chunks (snd item))"
      unfolding cleanup_paths_def by (rule UN_E)
    from i have "item \<in> set (upload_tracker w)" by simp
    with assms have "incomplete_path f \<notin> e_path ` set (chunks (snd item))"
      by (rule incomplete_path_not_a_fragment)
    with q show False by contradiction
  qed
  then show ?thesis
    by (simp add: cleanup_stale_chunks_def cleanup_loop_disk)
qed

text \<open>
  C5, as the code has it. Neither loop of the sweep reads \<^verbatim>\<open>total_size\<close>. For a session
  that is not complete, has at least one chunk, none of them with a time stamp above the
  threshold that the persist pass computes, and all fragments on disk, the on-demand sweep
  (persist, then cleanup), when it runs to its end, writes the partial artifact
  \<^verbatim>\<open><file_id>.incomplete\<close> as the concatenation of the session's fragments in order
  of start, removes the fragments and deletes the session record, whether the total size is
  known or not. No status is recorded: the record is gone.
\<close>

theorem C5_stale_session_persisted_whatever_total_size:
  assumes "registry_inv w"
    and "map_of (upload_tracker w) fid = Some info"
    and "status info \<noteq> Some ''complete''"
    and "chunks info \<noteq> []"
    and "\<forall>c\<in>set (chunks info). e_timestamp c \<le> threshold_at env now1"
    and "\<forall>c\<in>set (chunks info). disk w (e_path c) \<noteq> None"
    and "fst (trigger_cleanup env now1 now2 w) = None"
  shows "map_of (upload_tracker (snd (trigger_cleanup env now1 now2 w))) fid = None \<and>
         disk (snd (trigger_cleanup env now1 now2 w)) (incomplete_path fid) =
           Some (concat (map (\<lambda>c. the (disk w (e_path c))) (sort_key e_start (chunks info)))) \<and>
         (\<forall>c\<in>set (chunks info). disk (snd (trigger_cleanup env now1 now2 w)) (e_path c) = None)"
proof -
  let ?w1 = "snd (persist_incomplete_files env now1 w)"
  note fin = trigger_cleanup_finished [OF assms(7)]
  note p = persist_pass_reclaims [OF assms(1-6) fin(1)]
  have inv1: "registry_inv ?w1" using assms(1) by (rule registry_inv_persist)
  have key: "map_of (upload_tracker (cleanup_stale_chunks env now2 ?w1)) fid = None"
    using p(1) by (simp add: cleanup_stale_chunks_def cleanup_loop_tracker map_of_filter_absent)
  have art: "disk (cleanup_stale_chunks env now2 ?w1) (incomplete_path fid) =
           Some (concat (map (\<lambda>c. the (disk w (e_path c))) (sort_key e_start (chunks info))))"
    using cleanup_keeps_artifact [OF inv1, of env now2 fid] p(2) by simp
  have frag: "\<forall>c\<in>set (chunks info). disk (cleanup_stale_chunks env now2 ?w1) (e_path c) = None"
    using p(3) by (simp add: cleanup_stale_chunks_def cleanup_loop_disk)
  show ?thesis
    unfolding fin(2) using key art frag by simp
qed

lemma stale_world_tracker:
  "upload_tracker stale_world =
    [(''f'', \<lparr>chunks = [\<lparr>e_start = 0, e_end = 1, e_path = ''chunks/f_0_1.chunk'',
                          e_checksum = 3, e_timestamp = 10\<rparr>],
              total_size = None, last_updated = 10, status = None\<rparr>)]"
  by (simp add: stale_world_def eval_defs)

lemma stale_world_inv:
  "registry_inv stale_world"
  by (simp add: registry_inv_def stale_world_tracker chunk_path_def path_join_def CHUNK_DIR_def
        str_int_def str_nat.simps digit_char_def)

theorem C5_stale_session_persisted_whatever_total_size_witness:
  "total_bytes (get_file_status ''f'' stale_world) = None \<and>
   disk (snd (trigger_cleanup calm 5000 5001 stale_world)) (incomplete_path ''f'') = Some [1, 2] \<and>
   map_of (upload_tracker (snd (trigger_cleanup calm 5000 5001 stale_world))) ''f'' = None \<and>
   total_bytes (get_file_status ''f'' mixed_world) = Some 8 \<and>
   disk (snd (trigger_cleanup calm 10000 10001 mixed_world)) (incomplete_path ''f'') = Some [1, 2, 3, 4] \<and>
   map_of (upload_tracker (snd (trigger_cleanup calm 10000 10001 mixed_world))) ''f'' = None"
proof -
  have d1: "disk stale_world ''chunks/f_0_1.chunk'' = Some [1, 2]"
    by (simp add: stale_world_def eval_defs)
  have f1: "fst (trigger_cleanup calm 5000 5001 stale_world) = None"
    by (simp add: trigger_cleanup_def persist_incomplete_files_def cleanup_stale_chunks_def
          recent_activity_def stale_world_def eval_defs)
  have m1: "disk mixed_world ''chunks/f_0_1.chunk'' = Some [1, 2]"
    and m2: "disk mixed_world ''chunks/f_2_3.chunk'' = Some [3, 4]"
    by (simp_all add: mixed_world_def eval_defs)
  have f2: "fst (trigger_cleanup calm 10000 10001 mixed_world) = None"
    by (simp add: trigger_cleanup_def persist_incomplete_files_def cleanup_stale_chunks_def
          recent_activity_def mixed_world_def eval_defs)
  have a: "disk (snd (trigger_cleanup calm 5000 5001 stale_world)) (incomplete_path ''f'') = Some [1, 2] \<and>
           map_of (upload_tracker (snd (trigger_cleanup calm 5000 5001 stale_world))) ''f'' = None"
    using C5_stale_session_persisted_whatever_total_size
            [OF stale_world_inv _ _ _ _ _ f1, of "''f''"
               "\<lparr>chunks = [\<lparr>e_start = 0, e_end = 1, e_path = ''chunks/f_0_1.chunk'',
                          e_checksum = 3, e_timestamp = 10\<rparr>],
                 total_size = None, last_updated = 10, status = None\<rparr>"]
    by (simp add: stale_world_tracker d1 calm_def STALE_THRESHOLD_def)
  have b: "disk (snd (trigger_cleanup calm 10000 10001 mixed_world)) (incomplete_path ''f'') =
             Some [1, 2, 3, 4] \<and>
           map_of (upload_tracker (snd (trigger_cleanup calm 10000 10001 mixed_world))) ''f'' = None"
    using C5_stale_session_persisted_whatever_total_size
            [OF mixed_world_inv _ _ _ _ _ f2, of "''f''"
               "\<lparr>chunks = [\<lparr>e_start = 0, e_end = 1, e_path = ''chunks/f_0_1.chunk'',
                          e_checksum = 3, e_timestamp = 10\<rparr>,
                        \<lparr>e_start = 2, e_end = 3, e_path = ''chunks/f_2_3.chunk'',
                          e_checksum = 7, e_timestamp = 5000\<rparr>],
              total_size = Some 8, last_updated = 5000, status = None\<rparr>"]
    by (simp add: mixed_world_tracker m1 m2 calm_def STALE_THRESHOLD_def)
  show ?thesis
    using a b by (simp add: get_file_status_def stale_world_tracker mixed_world_tracker)
qed

text \<open>
  C5 as stated fails: the session of \<^verbatim>\<open>stale_world\<close> never declared a total size, and
  the on-demand sweep writes its partial artifact all the same.
\<close>

theorem C5_counterexample:
  "total_bytes (get_file_status ''f'' stale_world) = None \<and>
   st_status (get_file_status ''f'' stale_world) = ''partial'' \<and>
   disk stale_world (incomplete_path ''f'') = None \<and>
   disk (snd (trigger_cleanup calm 5000 5000 stale_world)) (incomplete_path ''f'') = Some [1, 2]"
proof -
  have "disk stale_world (incomplete_path ''f'') = None"
    by (simp add: stale_world_def eval_defs)
  then show ?thesis
    by (simp add: trigger_cleanup_stale_world get_file_status_def stale_world_tracker)
qed


end
